theory Spec2Isabelle
  imports Complex_Main "HOL-Library.Sublist"
begin

chapter \<open>Definitions\<close>

section \<open>JavaScript strings and regular expressions\<close>

text \<open>
  A JavaScript string is a sequence of UTF-16 code units. The model covers the strings
  whose code units are below 256 (ASCII and Latin-1), one \<^typ>\<open>char\<close> per code unit.
  In that range \<^verbatim>\<open>String.prototype.trim\<close> and the class \<^verbatim>\<open>\s\<close> remove
  or match the code units 9 to 13, 32 and 160, and \<^verbatim>\<open>toLowerCase\<close> adds 32 to the
  letters A to Z and to the Latin-1 capitals 192 to 222 other than 215.
\<close>

definition js_space :: "char \<Rightarrow> bool" where
  "js_space c = (c \<in> {CHR 0x09, CHR 0x0A, CHR 0x0B, CHR 0x0C, CHR 0x0D, CHR 0x20, CHR 0xA0})"

definition lower_char :: "char \<Rightarrow> char" where
  "lower_char c =
     (let n = (of_char c :: nat)
      in if (65 \<le> n \<and> n \<le> 90) \<or> (192 \<le> n \<and> n \<le> 222 \<and> n \<noteq> 215)
         then char_of (n + 32) else c)"

definition String_trim :: "string \<Rightarrow> string" where
  "String_trim s = rev (dropWhile js_space (rev (dropWhile js_space s)))"

definition String_toLowerCase :: "string \<Rightarrow> string" where
  "String_toLowerCase s = map lower_char s"

fun String_includes :: "string \<Rightarrow> string \<Rightarrow> bool" where
  "String_includes [] x = (x = [])"
| "String_includes (c # cs) x = (prefix x (c # cs) \<or> String_includes cs x)"

text \<open>
  Regular expression literals are transcribed into the datatype \<open>rx\<close>; an atom is the
  set of code units one pattern character or character class accepts. Matching is by
  derivatives. None of the patterns modelled here has a back reference or a look-around,
  so \<^verbatim>\<open>RegExp.prototype.test\<close> answers whether some substring belongs to the language
  of the pattern: \<open>rx_match\<close> is a pattern anchored at both ends (\<^verbatim>\<open>^...$\<close>, no
  \<^verbatim>\<open>m\<close> flag), \<open>rx_prefix\<close> a pattern anchored at the start, \<open>rx_search\<close> an
  unanchored pattern, and \<open>rx_search_wb\<close> a pattern between two \<^verbatim>\<open>\b\<close> assertions.
\<close>

datatype rx =
    Nothing
  | Empty
  | Atom "char \<Rightarrow> bool"
  | Alt rx rx
  | Seq rx rx
  | Star rx

fun nullable :: "rx \<Rightarrow> bool" where
  "nullable Nothing = False"
| "nullable Empty = True"
| "nullable (Atom p) = False"
| "nullable (Alt r s) = (nullable r \<or> nullable s)"
| "nullable (Seq r s) = (nullable r \<and> nullable s)"
| "nullable (Star r) = True"

fun deriv :: "char \<Rightarrow> rx \<Rightarrow> rx" where
  "deriv c Nothing = Nothing"
| "deriv c Empty = Nothing"
| "deriv c (Atom p) = (if p c then Empty else Nothing)"
| "deriv c (Alt r s) = Alt (deriv c r) (deriv c s)"
| "deriv c (Seq r s) =
     (if nullable r then Alt (Seq (deriv c r) s) (deriv c s) else Seq (deriv c r) s)"
| "deriv c (Star r) = Seq (deriv c r) (Star r)"

fun rx_match :: "rx \<Rightarrow> string \<Rightarrow> bool" where
  "rx_match r [] = nullable r"
| "rx_match r (c # cs) = rx_match (deriv c r) cs"

fun rx_prefix :: "rx \<Rightarrow> string \<Rightarrow> bool" where
  "rx_prefix r [] = nullable r"
| "rx_prefix r (c # cs) = (nullable r \<or> rx_prefix (deriv c r) cs)"

fun rx_search :: "rx \<Rightarrow> string \<Rightarrow> bool" where
  "rx_search r [] = nullable r"
| "rx_search r (c # cs) = (rx_prefix r (c # cs) \<or> rx_search r cs)"

text \<open>
  With the \<^verbatim>\<open>i\<close> flag and no \<^verbatim>\<open>u\<close> flag a pattern character matches the code
  units with the same canonical (upper-case) form; a code unit above 127 is never
  identified with an ASCII one, so for an ASCII pattern character only the two ASCII
  cases match.
\<close>

definition ascii_lower :: "char \<Rightarrow> char" where
  "ascii_lower c =
     (let n = (of_char c :: nat) in if 65 \<le> n \<and> n \<le> 90 then char_of (n + 32) else c)"

definition ci :: "char \<Rightarrow> char \<Rightarrow> bool" where
  "ci p c = (ascii_lower c = ascii_lower p)"

fun chars :: "(char \<Rightarrow> char \<Rightarrow> bool) \<Rightarrow> string \<Rightarrow> rx" where
  "chars eq [] = Empty"
| "chars eq (p # ps) = Seq (Atom (eq p)) (chars eq ps)"

definition word_char :: "char \<Rightarrow> bool" where
  "word_char c =
     (let n = (of_char c :: nat)
      in (48 \<le> n \<and> n \<le> 57) \<or> (65 \<le> n \<and> n \<le> 90) \<or> n = 95 \<or> (97 \<le> n \<and> n \<le> 122))"

definition word_boundary :: "char option \<Rightarrow> char option \<Rightarrow> bool" where
  "word_boundary before after =
     ((case before of None \<Rightarrow> False | Some c \<Rightarrow> word_char c) \<noteq>
      (case after of None \<Rightarrow> False | Some c \<Rightarrow> word_char c))"

fun rx_prefix_wb :: "rx \<Rightarrow> char option \<Rightarrow> string \<Rightarrow> bool" where
  "rx_prefix_wb r before [] = (nullable r \<and> word_boundary before None)"
| "rx_prefix_wb r before (c # cs) =
     ((nullable r \<and> word_boundary before (Some c)) \<or> rx_prefix_wb (deriv c r) (Some c) cs)"

fun rx_search_wb :: "rx \<Rightarrow> char option \<Rightarrow> string \<Rightarrow> bool" where
  "rx_search_wb r before [] = (word_boundary before None \<and> rx_prefix_wb r before [])"
| "rx_search_wb r before (c # cs) =
     ((word_boundary before (Some c) \<and> rx_prefix_wb r before (c # cs)) \<or>
      rx_search_wb r (Some c) cs)"

text \<open>The language of a pattern, against which the matcher is verified.\<close>

inductive_set rep :: "string set \<Rightarrow> string set" for A :: "string set" where
  rep_nil: "[] \<in> rep A"
| rep_app: "u \<in> A \<Longrightarrow> v \<in> rep A \<Longrightarrow> u @ v \<in> rep A"

fun lang :: "rx \<Rightarrow> string set" where
  "lang Nothing = {}"
| "lang Empty = {[]}"
| "lang (Atom p) = {[c] | c. p c}"
| "lang (Alt r s) = lang r \<union> lang s"
| "lang (Seq r s) = {u @ v | u v. u \<in> lang r \<and> v \<in> lang s}"
| "lang (Star r) = rep (lang r)"

section \<open>Credential helpers\<close>

text \<open>
  \<^verbatim>\<open>PLACEHOLDER_SNIPPETS\<close>, \<^verbatim>\<open>ROTATE_REQUIRED_REGEX\<close> (\<^verbatim>\<open>/rotate[\s_-]*required/i\<close>),
  \<^verbatim>\<open>isBracketPlaceholder\<close> (\<^verbatim>\<open>/^<[^>]+>$/\<close> on the trimmed value),
  \<^verbatim>\<open>isPlaceholderCredential\<close> and \<^verbatim>\<open>normalizeHttpUrl\<close> (\<^verbatim>\<open>/^https?:\/\//i\<close>).
\<close>

definition PLACEHOLDER_SNIPPETS :: "string list" where
  "PLACEHOLDER_SNIPPETS = [''your_'', ''_here'', ''placeholder'', ''replace_me'', ''changeme'']"

definition ROTATE_REQUIRED_REGEX :: rx where
  "ROTATE_REQUIRED_REGEX =
     Seq (chars ci ''rotate'')
       (Seq (Star (Atom (\<lambda>c. js_space c \<or> c = CHR ''_'' \<or> c = CHR ''-'')))
            (chars ci ''required''))"

definition isBracketPlaceholder :: "string \<Rightarrow> bool" where
  "isBracketPlaceholder v =
     rx_match
       (Seq (Atom (\<lambda>c. c = CHR ''<''))
         (Seq (Seq (Atom (\<lambda>c. c \<noteq> CHR ''>'')) (Star (Atom (\<lambda>c. c \<noteq> CHR ''>''))))
              (Atom (\<lambda>c. c = CHR ''>''))))
       (String_trim v)"

definition isPlaceholderCredential :: "string \<Rightarrow> bool" where
  "isPlaceholderCredential rawValue =
     (let normalized = String_toLowerCase (String_trim rawValue)
      in if length normalized = 0 then True
         else if rx_search ROTATE_REQUIRED_REGEX normalized then True
         else if isBracketPlaceholder rawValue then True
         else list_ex (\<lambda>snippet. String_includes normalized snippet) PLACEHOLDER_SNIPPETS)"

text \<open>
  A value of type \<^verbatim>\<open>unknown\<close>; only \<open>JString\<close> has \<^verbatim>\<open>typeof\<close> equal to
  \<^verbatim>\<open>'string'\<close>. The result \<^verbatim>\<open>undefined\<close> is \<open>None\<close>.
\<close>

datatype js_value = JUndefined | JNull | JBoolean bool | JNumber int | JString string | JObject

definition normalizeCredential :: "js_value \<Rightarrow> string option" where
  "normalizeCredential rawValue =
     (case rawValue of
        JString s \<Rightarrow>
          (let trimmed = String_trim s
           in if length trimmed = 0 \<or> isPlaceholderCredential trimmed then None
              else Some trimmed)
      | _ \<Rightarrow> None)"

definition normalizeHttpUrl :: "js_value \<Rightarrow> string option" where
  "normalizeHttpUrl rawValue =
     (case rawValue of
        JString s \<Rightarrow>
          (let trimmed = String_trim s
           in if length trimmed = 0 \<or> isPlaceholderCredential trimmed then None
              else if \<not> rx_prefix
                       (Seq (chars ci ''http'')
                          (Seq (Alt (Atom (ci CHR ''s'')) Empty) (chars ci ''://'')))
                       trimmed
              then None
              else Some trimmed)
      | _ \<Rightarrow> None)"

text \<open>
  The conditions in the words of the specification of \<^verbatim>\<open>normalizeHttpUrl\<close>: the trimmed
  value is a placeholder when it is empty, matches rotate-required, is wrapped in angle
  brackets, or contains one of the snippets (the last two tests and the first read the
  lower-cased value, as \<^verbatim>\<open>isPlaceholderCredential\<close> lower-cases before it looks).
\<close>

definition matches_rotate_required :: "string \<Rightarrow> bool" where
  "matches_rotate_required t \<longleftrightarrow>
     (\<exists>pre sep post. String_toLowerCase t = pre @ ''rotate'' @ sep @ ''required'' @ post \<and>
        (\<forall>c \<in> set sep. js_space c \<or> c = CHR ''_'' \<or> c = CHR ''-''))"

definition is_bracket_wrapped :: "string \<Rightarrow> bool" where
  "is_bracket_wrapped t \<longleftrightarrow>
     (\<exists>body. t = ''<'' @ body @ ''>'' \<and> body \<noteq> [] \<and> CHR ''>'' \<notin> set body)"

definition contains_placeholder_snippet :: "string \<Rightarrow> bool" where
  "contains_placeholder_snippet t \<longleftrightarrow>
     (\<exists>sn \<in> set PLACEHOLDER_SNIPPETS. \<exists>pre post. String_toLowerCase t = pre @ sn @ post)"

definition placeholder_in_words :: "string \<Rightarrow> bool" where
  "placeholder_in_words t \<longleftrightarrow>
     t = [] \<or> matches_rotate_required t \<or> is_bracket_wrapped t \<or> contains_placeholder_snippet t"

definition begins_with_http :: "string \<Rightarrow> bool" where
  "begins_with_http t \<longleftrightarrow>
     (\<exists>p rest. t = p @ rest \<and>
        (map ascii_lower p = ''http://'' \<or> map ascii_lower p = ''https://''))"

section \<open>The interactive step runner\<close>

text \<open>
  \<^verbatim>\<open>InteractiveStepRunner\<close>. The executor is not part of the runner: what it does when
  it is called for the \<open>k\<close>-th time with a step is an input of the model, namely the
  callbacks it makes while its promise is pending (\<^verbatim>\<open>onStdout\<close>, \<^verbatim>\<open>onStderr\<close>, and
  the points at which the flush timer of the runner fires), and whether the promise
  resolves with a result or rejects with a thrown value. The state of a runner is its
  private fields, together with the events it has dispatched to its listeners, the events
  it has sent over the socket, the steps it has handed to the executor and the number of
  times it has read the clock. The stream buffer is a \<^verbatim>\<open>Map\<close>, kept in insertion
  order, with the pair of step index and stream for the key \<^verbatim>\<open>`${stepIndex}:${type}`\<close>.
  \<^verbatim>\<open>normalizeStreamChunk\<close>, the rendering of the clock and the \<^verbatim>\<open>readyState\<close> of the
  socket at each emission are fields of the environment: the theorems hold whatever they
  return.
\<close>

record InteractiveStep =
  description :: string
  command :: "string list"

datatype InteractiveStepRunnerEventType =
  step_start | stdout | stderr | step_end | error | complete | telemetry

record InteractiveStepRunnerEvent =
  ev_type :: InteractiveStepRunnerEventType
  ev_timestamp :: string
  ev_stepIndex :: "nat option"
  ev_description :: "string option"
  ev_command :: "string list option"
  ev_output :: "string option"
  ev_exitCode :: "int option"
  ev_error :: "string option"
  ev_totalSteps :: "nat option"

record StepExecutionResult =
  res_exitCode :: int
  res_stdout :: "string option"
  res_stderr :: "string option"

datatype run_status = status_complete | status_error

record InteractiveStepRunResult =
  status :: run_status
  failedStepIndex :: "nat option"
  exitCode :: "int option"
  error_message :: "string option"

datatype callback = OnStdout string | OnStderr string | FlushTimerFires

datatype thrown = ThrownError string | ThrownOther string

datatype execution = Resolves StepExecutionResult | Rejects thrown

record runner_env =
  executeStep :: "nat \<Rightarrow> InteractiveStep \<Rightarrow> callback list \<times> execution"
  socket_readyState :: "(nat \<Rightarrow> nat) option"
  normalizeStreamChunk :: "string \<Rightarrow> string"
  toISOString :: "nat \<Rightarrow> string"

record runner =
  streamBuffer :: "((nat \<times> InteractiveStepRunnerEventType) \<times> InteractiveStepRunnerEvent) list"
  streamFlushTimer :: bool
  dispatched :: "InteractiveStepRunnerEvent list"
  sent :: "InteractiveStepRunnerEvent list"
  executed :: "InteractiveStep list"
  dates :: nat

definition WS_OPEN :: nat where "WS_OPEN = 1"
definition MAX_STREAM_BUFFER_CHARS :: nat where "MAX_STREAM_BUFFER_CHARS = 2400"

definition blank_event :: "InteractiveStepRunnerEventType \<Rightarrow> string \<Rightarrow> InteractiveStepRunnerEvent" where
  "blank_event ty ts =
     \<lparr>ev_type = ty, ev_timestamp = ts, ev_stepIndex = None, ev_description = None,
      ev_command = None, ev_output = None, ev_exitCode = None, ev_error = None,
      ev_totalSteps = None\<rparr>"

definition new_runner :: runner where
  "new_runner = \<lparr>streamBuffer = [], streamFlushTimer = False, dispatched = [], sent = [],
                  executed = [], dates = 0\<rparr>"

definition emit :: "runner_env \<Rightarrow> InteractiveStepRunnerEvent \<Rightarrow> runner \<Rightarrow> runner" where
  "emit env event r =
     r\<lparr>dispatched := dispatched r @ [event],
       sent := (case socket_readyState env of
                  None \<Rightarrow> sent r
                | Some readyState \<Rightarrow>
                    if readyState (length (dispatched r)) = WS_OPEN then sent r @ [event] else sent r)\<rparr>"

definition scheduleStreamFlush :: "runner \<Rightarrow> runner" where
  "scheduleStreamFlush r = (if streamFlushTimer r then r else r\<lparr>streamFlushTimer := True\<rparr>)"

fun Map_set :: "('k \<times> 'v) list \<Rightarrow> 'k \<Rightarrow> 'v \<Rightarrow> ('k \<times> 'v) list" where
  "Map_set [] k v = [(k, v)]"
| "Map_set ((k', v') # m) k v = (if k' = k then (k, v) # m else (k', v') # Map_set m k v)"

definition slice_last :: "nat \<Rightarrow> string \<Rightarrow> string" where
  "slice_last n s = drop (length s - n) s"

definition bufferStreamChunk ::
  "runner_env \<Rightarrow> InteractiveStepRunnerEventType \<Rightarrow> nat \<Rightarrow> string \<Rightarrow> string \<Rightarrow> runner \<Rightarrow> runner" where
  "bufferStreamChunk env ty stepIndex descr output r =
     (let normalizedChunk = normalizeStreamChunk env output
      in if String_trim normalizedChunk = [] then r
         else
           let key = (stepIndex, ty);
               existing = map_of (streamBuffer r) key;
               previous = (case existing of
                             None \<Rightarrow> []
                           | Some e \<Rightarrow> (case ev_output e of None \<Rightarrow> [] | Some out \<Rightarrow> out));
               nextOutput = slice_last MAX_STREAM_BUFFER_CHARS (previous @ normalizedChunk);
               event = (blank_event ty (toISOString env (dates r)))
                         \<lparr>ev_stepIndex := Some stepIndex, ev_description := Some descr,
                          ev_output := Some nextOutput\<rparr>
           in scheduleStreamFlush
                (r\<lparr>streamBuffer := Map_set (streamBuffer r) key event, dates := Suc (dates r)\<rparr>))"

definition flushStreamBuffer :: "runner_env \<Rightarrow> runner \<Rightarrow> runner" where
  "flushStreamBuffer env r =
     (let r1 = (if streamFlushTimer r then r\<lparr>streamFlushTimer := False\<rparr> else r)
      in if length (streamBuffer r1) = 0 then r1
         else (foldl (\<lambda>acc event. emit env event acc) r1 (map snd (streamBuffer r1)))
                \<lparr>streamBuffer := []\<rparr>)"

fun during_step :: "runner_env \<Rightarrow> nat \<Rightarrow> string \<Rightarrow> callback \<Rightarrow> runner \<Rightarrow> runner" where
  "during_step env index descr (OnStdout chunk) r = bufferStreamChunk env stdout index descr chunk r"
| "during_step env index descr (OnStderr chunk) r = bufferStreamChunk env stderr index descr chunk r"
| "during_step env index descr FlushTimerFires r =
     (if streamFlushTimer r then flushStreamBuffer env r else r)"

fun digits :: "nat \<Rightarrow> string" where
  "digits n = (if n < 10 then [char_of (48 + n)] else digits (n div 10) @ [char_of (48 + n mod 10)])"

definition Number_toString :: "int \<Rightarrow> string" where
  "Number_toString i = (if i < 0 then CHR ''-'' # digits (nat (- i)) else digits (nat i))"

definition or_else :: "string option \<Rightarrow> string \<Rightarrow> string" where
  "or_else a b = (case a of None \<Rightarrow> b | Some x \<Rightarrow> if x = [] then b else x)"

definition run_step ::
  "runner_env \<Rightarrow> InteractiveStep list \<Rightarrow> nat \<Rightarrow> runner \<Rightarrow> InteractiveStepRunResult option \<times> runner" where
  "run_step env steps index r0 =
     (let step = steps ! index;
          r1 = emit env
                 ((blank_event step_start (toISOString env (dates r0)))
                    \<lparr>ev_stepIndex := Some index, ev_description := Some (description step),
                     ev_command := Some (command step)\<rparr>)
                 (r0\<lparr>dates := Suc (dates r0)\<rparr>);
          (callbacks, outcome) = executeStep env (length (executed r1)) step;
          r2 = foldl (\<lambda>acc cb. during_step env index (description step) cb acc)
                 (r1\<lparr>executed := executed r1 @ [step]\<rparr>) callbacks
      in case outcome of
           Resolves result \<Rightarrow>
             (let r3 = flushStreamBuffer env r2;
                  r4 = emit env
                         ((blank_event step_end (toISOString env (dates r3)))
                            \<lparr>ev_stepIndex := Some index, ev_description := Some (description step),
                             ev_exitCode := Some (res_exitCode result),
                             ev_output := res_stdout result\<rparr>)
                         (r3\<lparr>dates := Suc (dates r3)\<rparr>)
              in if res_exitCode result \<noteq> 0 then
                   (let errorMessage =
                          or_else (res_stderr result)
                            (or_else (res_stdout result)
                               (''Step failed with exit code '' @ Number_toString (res_exitCode result)));
                        r5 = emit env
                               ((blank_event error (toISOString env (dates r4)))
                                  \<lparr>ev_stepIndex := Some index, ev_description := Some (description step),
                                   ev_exitCode := Some (res_exitCode result),
                                   ev_error := Some errorMessage\<rparr>)
                               (r4\<lparr>dates := Suc (dates r4)\<rparr>)
                    in (Some \<lparr>status = status_error, failedStepIndex = Some index,
                               exitCode = Some (res_exitCode result),
                               error_message = Some errorMessage\<rparr>, r5))
                 else (None, r4))
         | Rejects err \<Rightarrow>
             (let r3 = flushStreamBuffer env r2;
                  errorMessage = (case err of ThrownError message \<Rightarrow> message | ThrownOther s \<Rightarrow> s);
                  r4 = emit env
                         ((blank_event error (toISOString env (dates r3)))
                            \<lparr>ev_stepIndex := Some index, ev_description := Some (description step),
                             ev_error := Some errorMessage\<rparr>)
                         (r3\<lparr>dates := Suc (dates r3)\<rparr>)
              in (Some \<lparr>status = status_error, failedStepIndex = Some index, exitCode = None,
                         error_message = Some errorMessage\<rparr>, r4)))"

function run_from ::
  "runner_env \<Rightarrow> InteractiveStep list \<Rightarrow> nat \<Rightarrow> runner \<Rightarrow> InteractiveStepRunResult \<times> runner" where
  "run_from env steps index r =
     (if index < length steps then
        (case run_step env steps index r of
           (Some result, r') \<Rightarrow> (result, r')
         | (None, r') \<Rightarrow> run_from env steps (Suc index) r')
      else
        (let r1 = flushStreamBuffer env r;
             r2 = emit env
                    ((blank_event complete (toISOString env (dates r1)))
                       \<lparr>ev_totalSteps := Some (length steps)\<rparr>)
                    (r1\<lparr>dates := Suc (dates r1)\<rparr>)
         in (\<lparr>status = status_complete, failedStepIndex = None, exitCode = None,
              error_message = None\<rparr>, r2)))"
  by pat_completeness auto
termination
  by (relation "measure (\<lambda>(env, steps, index, r). length steps - index)") auto

definition run :: "runner_env \<Rightarrow> InteractiveStep list \<Rightarrow> InteractiveStepRunResult \<times> runner" where
  "run env steps = run_from env steps 0 new_runner"

definition step_fails :: "runner_env \<Rightarrow> InteractiveStep list \<Rightarrow> nat \<Rightarrow> bool" where
  "step_fails env steps i =
     (case snd (executeStep env i (steps ! i)) of
        Resolves result \<Rightarrow> res_exitCode result \<noteq> 0
      | Rejects err \<Rightarrow> True)"

definition witness_env :: runner_env where
  "witness_env =
     \<lparr>executeStep =
        (\<lambda>k step. ([OnStdout ''hello'', OnStdout '' world'', FlushTimerFires, OnStderr ''warn''],
           if k = 2 then Rejects (ThrownError ''boom'')
           else Resolves \<lparr>res_exitCode = (if k = 1 then 17 else 0), res_stdout = Some ''ok'',
                            res_stderr = Some []\<rparr>)),
      socket_readyState = Some (\<lambda>n. 1),
      normalizeStreamChunk = (\<lambda>s. s),
      toISOString = (\<lambda>n. digits n)\<rparr>"

definition witness_steps :: "InteractiveStep list" where
  "witness_steps =
     [\<lparr>description = ''first step'', command = [''echo'', ''first'']\<rparr>,
      \<lparr>description = ''fails'', command = [''false'']\<rparr>,
      \<lparr>description = ''should-not-run'', command = [''echo'', ''skip'']\<rparr>]"

section \<open>The chat action: stream timeout and error response\<close>

text \<open>
  \<^verbatim>\<open>LONG_THINK_MODEL_RE\<close> is
  \<^verbatim>\<open>/\b(gpt-5|gpt-5\.2|gpt-5-codex|codex|o1|o3|claude-3\.7|claude-3\.5-sonnet-latest|claude-3-5-sonnet-latest)\b/i\<close>.
\<close>

definition LONG_THINK_MODEL_RE :: rx where
  "LONG_THINK_MODEL_RE =
     Alt (chars ci ''gpt-5'')
    (Alt (chars ci ''gpt-5.2'')
    (Alt (chars ci ''gpt-5-codex'')
    (Alt (chars ci ''codex'')
    (Alt (chars ci ''o1'')
    (Alt (chars ci ''o3'')
    (Alt (chars ci ''claude-3.7'')
    (Alt (chars ci ''claude-3.5-sonnet-latest'')
         (chars ci ''claude-3-5-sonnet-latest''))))))))"

definition LONG_THINK_MODEL_RE_test :: "string \<Rightarrow> bool" where
  "LONG_THINK_MODEL_RE_test s = rx_search_wb LONG_THINK_MODEL_RE None s"

text \<open>
  A JavaScript number is \<^verbatim>\<open>NaN\<close>, an infinity or a finite value. The conversion
  \<^verbatim>\<open>Number(string)\<close> belongs to the language, not to the repository: it is the
  parameter \<open>Number\<close> of the model, and the theorems hold for every such function.
\<close>

datatype js_number = NaN | Infinity | NegInfinity | Finite real

definition Number_isFinite :: "js_number \<Rightarrow> bool" where
  "Number_isFinite x = (case x of Finite v \<Rightarrow> True | _ \<Rightarrow> False)"

definition js_ge :: "js_number \<Rightarrow> real \<Rightarrow> bool" where
  "js_ge x c = (case x of NaN \<Rightarrow> False | Infinity \<Rightarrow> True | NegInfinity \<Rightarrow> False | Finite v \<Rightarrow> c \<le> v)"

text \<open>
  \<^verbatim>\<open>a || b\<close> on two values that are a string or \<^verbatim>\<open>undefined\<close>: the first one that
  is a non-empty string.
\<close>

definition first_truthy :: "string option \<Rightarrow> string option \<Rightarrow> string option" where
  "first_truthy a b =
     (case a of
        Some x \<Rightarrow> if x \<noteq> [] then Some x else (case b of Some y \<Rightarrow> if y \<noteq> [] then Some y else None | None \<Rightarrow> None)
      | None \<Rightarrow> (case b of Some y \<Rightarrow> if y \<noteq> [] then Some y else None | None \<Rightarrow> None))"

definition dynamicStreamTimeoutFallbackMs :: "string option \<Rightarrow> real" where
  "dynamicStreamTimeoutFallbackMs selectedModel =
     (let longThinkSelectedModel = (case selectedModel of None \<Rightarrow> [] | Some m \<Rightarrow> m)
      in if LONG_THINK_MODEL_RE_test longThinkSelectedModel then 300000 else 180000)"

text \<open>
  The two values of \<^verbatim>\<open>BOLT_STREAM_TIMEOUT_MS\<close> are the one of the runtime environment
  (\<^verbatim>\<open>envVars\<close>) and the one of \<^verbatim>\<open>process.env\<close>, each a string or absent.
\<close>

definition configuredStreamTimeoutMs ::
  "(string \<Rightarrow> js_number) \<Rightarrow> string option \<Rightarrow> string option \<Rightarrow> string option \<Rightarrow> js_number" where
  "configuredStreamTimeoutMs Number selectedModel envVars_value process_env_value =
     (case first_truthy envVars_value process_env_value of
        Some text \<Rightarrow> Number text
      | None \<Rightarrow> Finite (dynamicStreamTimeoutFallbackMs selectedModel))"

definition streamTimeoutMs ::
  "(string \<Rightarrow> js_number) \<Rightarrow> string option \<Rightarrow> string option \<Rightarrow> string option \<Rightarrow> js_number" where
  "streamTimeoutMs Number selectedModel envVars_value process_env_value =
     (let configured = configuredStreamTimeoutMs Number selectedModel envVars_value process_env_value
      in if Number_isFinite configured \<and> js_ge configured 30000 then configured
         else Finite (dynamicStreamTimeoutFallbackMs selectedModel))"

definition witness_Number :: "string \<Rightarrow> js_number" where
  "witness_Number text =
     (if text = ''45000'' then Finite 45000 else if text = ''1000'' then Finite 1000 else NaN)"


record errorResponse =
  er_error :: bool
  er_message :: string
  er_statusCode :: int
  er_isRetryable :: bool
  er_provider :: string



record Response =
  resp_body :: errorResponse
  resp_status :: int
  resp_statusText :: string
  resp_headers :: "(string \<times> string) list"











section \<open>The chat action: one Run\<close>

text \<open>
  The state of a Run is the set of variables that \<^verbatim>\<open>chatAction\<close> and the
  \<^verbatim>\<open>execute\<close> callback of its data stream close over. The callbacks of the Run
  (\<^verbatim>\<open>onStepFinish\<close>, \<^verbatim>\<open>onFinish\<close>, the \<^verbatim>\<open>onFinish\<close> of the finalize
  segment, \<^verbatim>\<open>onTimeout\<close>, the heartbeat interval) run one at a time and each is a
  function from state to state; what the backend and the timers do is the list of events
  a Run is driven by. Code of the repository that is not part of the sources at hand
  (\<^verbatim>\<open>analyzeRunContinuation\<close>, \<^verbatim>\<open>extractPropertiesFromMessage\<close>, the commentary
  helpers, \<^verbatim>\<open>addUsageTotals\<close>, the project memory and run metrics, the constants
  \<^verbatim>\<open>MAX_RESPONSE_SEGMENTS\<close> and \<^verbatim>\<open>CONTINUE_PROMPT\<close>) is a field of the environment
  \<open>chat_env\<close>, and the results of the recovery controller and of the checkpoint
  extraction come with the event that reports a step. Time is in milliseconds since the
  epoch and each callback reads the clock once. The counter \<^verbatim>\<open>progressCounter\<close> is a
  natural number: the model does not cover a Run with more than \<open>2^53\<close> events, where a
  JavaScript number stops counting. The list \<open>written\<close> holds what \<^verbatim>\<open>chatAction\<close>
  itself writes to the data stream; the text of the backend segments and the annotations
  of the tool service are merged into the same stream by code outside the sources at hand.
\<close>

datatype AgentCommentaryPhase =
  phase_plan | phase_action | phase_verification | phase_next_step | phase_recovery

datatype commentary_status = st_in_progress | st_warning | st_complete | st_recovered

datatype FinishReason =
  fr_stop | fr_length | fr_content_filter | fr_tool_calls | fr_error | fr_other | fr_unknown

datatype role = role_system | role_user | role_assistant | role_data

record message =
  msg_id :: string
  msg_role :: role
  msg_content :: string

record usage =
  completionTokens :: nat
  promptTokens :: nat
  totalTokens :: nat

record run_metrics =
  rm_runId :: string
  rm_provider :: string
  rm_model :: string
  rm_commentaryFirstEventLatencyMs :: "int option"
  rm_recoveryTriggered :: bool
  rm_recoverySucceeded :: bool
  rm_manualIntervention :: bool
  rm_timestamp :: nat

record project_memory =
  pm_projectKey :: string
  pm_summary :: string
  pm_architecture :: string
  pm_latestGoal :: string
  pm_runCount :: nat
  pm_updatedAt :: string

text \<open>What \<^verbatim>\<open>chatAction\<close> writes to the data stream, oldest first.\<close>

datatype data_event =
    AgentCommentary AgentCommentaryPhase commentary_status nat string nat "string option"
  | Progress string string nat string
  | UsageData usage nat
  | UsageAnnotation usage
  | RunMetrics run_metrics string
  | ProjectMemory project_memory
  | Checkpoint string
  | SubAgent string
  | ContextAnnotation string

record RecoverySignal =
  sig_reason :: string
  sig_backoffMs :: nat
  sig_forceFinalize :: bool
  sig_message :: string
  sig_detail :: "string option"

record continuation_args =
  arg_chatMode :: string
  arg_lastUserContent :: string
  arg_assistantContent :: string
  arg_alreadyAttempted :: bool
  arg_attemptCount :: nat

record continuation_decision =
  shouldContinue :: bool
  reason :: string

record message_properties =
  prop_model :: string
  prop_provider :: string
  prop_content :: string

record chat_env =
  chatMode :: "string option"
  requestStartedAt :: nat
  runId :: string
  manualInterventionDetected :: bool
  MAX_RESPONSE_SEGMENTS :: nat
  CONTINUE_PROMPT :: string
  analyzeRunContinuation :: "continuation_args \<Rightarrow> continuation_decision"
  extractPropertiesFromMessage :: "message option \<Rightarrow> message_properties"
  getCommentaryPoolMessage :: "AgentCommentaryPhase \<Rightarrow> nat \<Rightarrow> string \<Rightarrow> string"
  enforceCommentaryContract ::
    "AgentCommentaryPhase \<Rightarrow> string \<Rightarrow> string option \<Rightarrow> string \<times> string option"
  buildCommentaryHeartbeat ::
    "int \<Rightarrow> AgentCommentaryPhase \<Rightarrow> AgentCommentaryPhase \<times> string \<times> string option"
  generateId :: "nat \<Rightarrow> string"
  addUsageTotals :: "usage \<Rightarrow> usage \<Rightarrow> usage"
  upsertProjectMemory :: "string \<Rightarrow> project_memory"
  recordAgentRunMetrics :: "run_metrics \<Rightarrow> string"

datatype segment_kind =
  seg_initial | seg_finalize | seg_continuation | seg_forced_recovery | seg_length_continue

text \<open>A call of \<^verbatim>\<open>streamText\<close>: which branch made it, and the messages it was given.\<close>

record segment =
  seg_kind :: segment_kind
  seg_messages :: "message list"

record finalize_closure =
  fc_content :: string
  fc_model :: string
  fc_provider :: string

record run_state =
  progressCounter :: nat
  firstCommentaryAt :: "nat option"
  lastCommentaryPhase :: AgentCommentaryPhase
  commentaryHeartbeat :: bool
  recoveryTriggered :: bool
  recoverySucceeded :: bool
  completionEmitted :: bool
  hasExecutionFailures :: bool
  latestExecutionFailure :: "string option"
  pendingRecoveryReason :: "string option"
  pendingRecoveryBackoffMs :: nat
  forceFinalizeRequested :: bool
  forceFinalizeAttempted :: bool
  runContinuationAttempts :: nat
  forcedRunRecoveryAttempted :: bool
  processedMessages :: "message list"
  collectedToolOutputs :: "string list"
  cumulativeUsage :: usage
  summary :: "string option"
  stream_switches :: nat
  streamRecoveryMonitoring :: bool
  activeStreamAbortController :: "bool option"
  written :: "data_event list"
  issued :: "segment list"
  generatedIds :: nat
  awaitingBackoff :: "finalize_closure option"
  finalizeSegment :: "finalize_closure option"

definition MAX_RUN_CONTINUATION_ATTEMPTS :: nat where
  "MAX_RUN_CONTINUATION_ATTEMPTS = 5"

text \<open>
  The state when \<^verbatim>\<open>execute\<close> starts: the counter at 1, the flags down, no timer, the
  processed messages of the request, and \<^verbatim>\<open>stream.switches\<close> as the freshly
  constructed \<^verbatim>\<open>SwitchableStream\<close> reports it.
\<close>

definition initial_run :: "message list \<Rightarrow> nat \<Rightarrow> run_state" where
  "initial_run messages switches =
     \<lparr>progressCounter = 1, firstCommentaryAt = None, lastCommentaryPhase = phase_plan,
      commentaryHeartbeat = False, recoveryTriggered = False, recoverySucceeded = False,
      completionEmitted = False, hasExecutionFailures = False, latestExecutionFailure = None,
      pendingRecoveryReason = None, pendingRecoveryBackoffMs = 0,
      forceFinalizeRequested = False, forceFinalizeAttempted = False,
      runContinuationAttempts = 0, forcedRunRecoveryAttempted = False,
      processedMessages = messages, collectedToolOutputs = [],
      cumulativeUsage = \<lparr>completionTokens = 0, promptTokens = 0, totalTokens = 0\<rparr>,
      summary = None, stream_switches = switches, streamRecoveryMonitoring = True,
      activeStreamAbortController = None, written = [], issued = [], generatedIds = 0,
      awaitingBackoff = None, finalizeSegment = None\<rparr>"

definition NL :: string where "NL = [CHR 0x0A]"

definition DQ :: string where "DQ = [CHR 0x22]"

fun join :: "string \<Rightarrow> string list \<Rightarrow> string" where
  "join sep [] = []"
| "join sep [x] = x"
| "join sep (x # y # ys) = x @ sep @ join sep (y # ys)"

definition truthy :: "string option \<Rightarrow> bool" where
  "truthy a = (case a of None \<Rightarrow> False | Some x \<Rightarrow> x \<noteq> [])"

definition writeData :: "data_event \<Rightarrow> run_state \<Rightarrow> run_state" where
  "writeData e s = s\<lparr>written := written s @ [e]\<rparr>"

definition writeCommentary ::
  "chat_env \<Rightarrow> nat \<Rightarrow> AgentCommentaryPhase \<Rightarrow> string \<Rightarrow> commentary_status \<Rightarrow> string option \<Rightarrow>
   run_state \<Rightarrow> run_state" where
  "writeCommentary env now phase msg st detail s0 =
     (let s1 = (if firstCommentaryAt s0 = None then s0\<lparr>firstCommentaryAt := Some now\<rparr> else s0);
          s2 = s1\<lparr>lastCommentaryPhase := phase\<rparr>;
          order = progressCounter s2;
          s3 = s2\<lparr>progressCounter := Suc order\<rparr>;
          fallbackMessage =
            (if msg = [] then ''I am still working and will post another update shortly.''
             else msg);
          effectiveMessage =
            (if st = st_in_progress
             then getCommentaryPoolMessage env phase (requestStartedAt env + order) fallbackMessage
             else fallbackMessage);
          contracted = enforceCommentaryContract env phase effectiveMessage detail
      in writeData (AgentCommentary phase st order (fst contracted) now (snd contracted)) s3)"

definition stopCommentaryHeartbeat :: "run_state \<Rightarrow> run_state" where
  "stopCommentaryHeartbeat s =
     (if commentaryHeartbeat s then s\<lparr>commentaryHeartbeat := False\<rparr> else s)"

definition startCommentaryHeartbeat :: "run_state \<Rightarrow> run_state" where
  "startCommentaryHeartbeat s =
     (if commentaryHeartbeat s then s else s\<lparr>commentaryHeartbeat := True\<rparr>)"

text \<open>The callback of the heartbeat interval; it runs only while the interval is set.\<close>

definition heartbeat_tick :: "chat_env \<Rightarrow> nat \<Rightarrow> run_state \<Rightarrow> run_state" where
  "heartbeat_tick env now s =
     (if commentaryHeartbeat s then
        (let heartbeat = buildCommentaryHeartbeat env (int now - int (requestStartedAt env))
                           (lastCommentaryPhase s)
         in writeCommentary env now (fst heartbeat) (fst (snd heartbeat)) st_in_progress
              (snd (snd heartbeat)) s)
      else s)"

definition emitRunCompletionEvents ::
  "chat_env \<Rightarrow> nat \<Rightarrow> string \<Rightarrow> string \<Rightarrow> string \<Rightarrow> run_state \<Rightarrow> run_state" where
  "emitRunCompletionEvents env now finalAssistantText model provider s0 =
     (if completionEmitted s0 then s0
      else
        (let s1 = (stopCommentaryHeartbeat s0)\<lparr>completionEmitted := True\<rparr>;
             commentaryFirstEventLatencyMs =
               (case firstCommentaryAt s1 of
                  None \<Rightarrow> None
                | Some t \<Rightarrow> Some (int t - int (requestStartedAt env)));
             projectMemoryEntry =
               upsertProjectMemory env
                 (or_else (summary s1) finalAssistantText);
             metrics =
               \<lparr>rm_runId = runId env, rm_provider = provider, rm_model = model,
                rm_commentaryFirstEventLatencyMs = commentaryFirstEventLatencyMs,
                rm_recoveryTriggered = recoveryTriggered s1,
                rm_recoverySucceeded = recoverySucceeded s1,
                rm_manualIntervention = manualInterventionDetected env,
                rm_timestamp = now\<rparr>;
             aggregate = recordAgentRunMetrics env metrics;
             s2 = writeData (UsageData (cumulativeUsage s1) now) s1;
             s3 = writeData (UsageAnnotation (cumulativeUsage s2)) s2;
             s4 = writeData (RunMetrics metrics aggregate) s3;
             s5 = writeData (ProjectMemory projectMemoryEntry) s4;
             s6 = writeData
                    (Progress ''response'' ''complete'' (progressCounter s5)
                       (if hasExecutionFailures s5
                        then ''Response Generated (with execution failures)''
                        else ''Response Generated''))
                    s5
         in s6\<lparr>progressCounter := Suc (progressCounter s6)\<rparr>))"

definition createStreamAbortSignal :: "run_state \<Rightarrow> run_state" where
  "createStreamAbortSignal s = s\<lparr>activeStreamAbortController := Some False\<rparr>"

definition stopRunMonitors :: "run_state \<Rightarrow> run_state" where
  "stopRunMonitors s =
     (stopCommentaryHeartbeat (s\<lparr>streamRecoveryMonitoring := False\<rparr>))
       \<lparr>activeStreamAbortController := None\<rparr>"

text \<open>
  \<^verbatim>\<open>processedMessages.push({ id: generateId(), role, content })\<close>, and a call of
  \<^verbatim>\<open>streamText\<close> on a copy of the messages with a fresh abort signal.
\<close>

definition push_message :: "chat_env \<Rightarrow> role \<Rightarrow> string \<Rightarrow> run_state \<Rightarrow> run_state" where
  "push_message env r content s =
     s\<lparr>processedMessages :=
         processedMessages s @
           [\<lparr>msg_id = generateId env (generatedIds s), msg_role = r, msg_content = content\<rparr>],
       generatedIds := Suc (generatedIds s)\<rparr>"

definition streamText :: "segment_kind \<Rightarrow> run_state \<Rightarrow> run_state" where
  "streamText kind s =
     (createStreamAbortSignal s)
       \<lparr>issued := issued s @ [\<lparr>seg_kind = kind, seg_messages = processedMessages s\<rparr>]\<rparr>"

definition merge_signal :: "RecoverySignal \<Rightarrow> run_state \<Rightarrow> run_state" where
  "merge_signal signal s =
     s\<lparr>pendingRecoveryReason :=
         (if truthy (pendingRecoveryReason s) then pendingRecoveryReason s
          else Some (sig_reason signal)),
       pendingRecoveryBackoffMs := max (pendingRecoveryBackoffMs s) (sig_backoffMs signal),
       forceFinalizeRequested := (forceFinalizeRequested s \<or> sig_forceFinalize signal),
       recoveryTriggered := True\<rparr>"

definition onTimeout :: "chat_env \<Rightarrow> nat \<Rightarrow> RecoverySignal \<Rightarrow> run_state \<Rightarrow> run_state" where
  "onTimeout env now signal s0 =
     (let s1 = merge_signal signal s0;
          s2 = writeCommentary env now phase_recovery (sig_message signal) st_warning
                 (sig_detail signal) s1
      in if activeStreamAbortController s2 = Some False
         then s2\<lparr>activeStreamAbortController := Some True\<rparr> else s2)"

text \<open>
  What \<^verbatim>\<open>onStepFinish\<close> is given and what the helpers it calls return for the step: the
  names of the tool calls, the tool results as \<^verbatim>\<open>JSON.stringify\<close> renders them, the
  checkpoint events, the execution failure and the signal of the recovery controller.
\<close>

record step_report =
  step_toolNames :: "string list"
  step_toolResults :: "string list"
  step_checkpoints :: "string list"
  step_executionFailure :: "string option"
  step_recoverySignal :: "RecoverySignal option"

definition onStepFinish :: "chat_env \<Rightarrow> nat \<Rightarrow> step_report \<Rightarrow> run_state \<Rightarrow> run_state" where
  "onStepFinish env now step s0 =
     (let toolNames = join '', '' (step_toolNames step);
          updates = digits (length (step_toolResults step));
          s1 = (if length (step_toolNames step) > 0 \<or> length (step_toolResults step) > 0 then
                  writeCommentary env now phase_verification
                    ''I finished a step and I am checking the result before continuing.''
                    st_in_progress
                    (Some
                      (if toolNames \<noteq> [] then
                         ''Key changes: Finished actions ('' @ toolNames @ '') and collected '' @
                         updates @ '' updates.'' @ NL @
                         ''Next: I am confirming everything still works before the next step.''
                       else
                         ''Key changes: Finished one step and collected '' @ updates @
                         '' updates.'' @ NL @
                         ''Next: I am confirming everything still works before moving on.''))
                    s0
                else s0);
          s2 = foldl (\<lambda>acc event. writeData (Checkpoint event) acc) s1 (step_checkpoints step);
          s3 = (case step_executionFailure step of
                  None \<Rightarrow> s2
                | Some failure \<Rightarrow>
                    writeCommentary env now phase_recovery
                      ''A step failed. I am checking it now and applying a fix automatically.''
                      st_warning
                      (Some (''Key changes: One of the recent actions did not succeed.'' @ NL @
                             ''Next: I will recover and continue from the latest stable point.''))
                      (s2\<lparr>hasExecutionFailures := True,
                          latestExecutionFailure := Some failure,
                          recoveryTriggered := True\<rparr>));
          s4 = (case step_recoverySignal step of
                  None \<Rightarrow> s3
                | Some recoverySignal \<Rightarrow>
                    writeCommentary env now phase_recovery (sig_message recoverySignal) st_warning
                      (sig_detail recoverySignal) (merge_signal recoverySignal s3))
      in s4\<lparr>collectedToolOutputs := collectedToolOutputs s4 @ step_toolResults step\<rparr>)"

text \<open>\<^verbatim>\<open>if (usage) addUsageTotals(cumulativeUsage, usage)\<close>, at the head of both \<^verbatim>\<open>onFinish\<close>.\<close>

definition record_usage :: "chat_env \<Rightarrow> usage option \<Rightarrow> run_state \<Rightarrow> run_state" where
  "record_usage env tokenUsage s =
     (case tokenUsage of
        None \<Rightarrow> s
      | Some u \<Rightarrow> s\<lparr>cumulativeUsage := addUsageTotals env (cumulativeUsage s) u\<rparr>)"

definition envelope :: "string \<Rightarrow> string \<Rightarrow> string" where
  "envelope model provider =
     ''[Model: '' @ model @ '']'' @ NL @ NL @ ''[Provider: '' @ provider @ '']'' @ NL @ NL"

definition buildForcedRunRecoveryPrompt :: "string \<Rightarrow> string \<Rightarrow> string \<Rightarrow> string" where
  "buildForcedRunRecoveryPrompt provider model originalRequest =
     envelope model provider @
     join NL
       [''Forced recovery mode: previous attempts did not produce a runnable implementation.'',
        ''Continue from the current project state and execute the original request now.'',
        '''',
        ''Original request:'',
        originalRequest,
        '''',
        ''Hard requirements (must follow exactly):'',
        ''1) Emit exactly one <boltArtifact> with executable <boltAction> steps.'',
        ''2) Do NOT run inspection-only commands (ls, pwd, cat, find, tree, env, echo).'',
        ''3) Do NOT re-scaffold if package.json already exists.'',
        ''4) First meaningful actions must be <boltAction type='' @ DQ @ ''file'' @ DQ @
          ''> updates that implement the requested features.'',
        ''5) If dependencies are missing, run a single install command.'',
        ''6) Include a <boltAction type='' @ DQ @ ''start'' @ DQ @
          ''> command to run the dev server.'',
        ''7) If preview still shows fallback starter text, replace src/App.tsx (or equivalent root UI entry) immediately.'',
        ''8) Keep prose short; focus on executable steps and completion.'']"

definition finalize_directive :: "string \<Rightarrow> string \<Rightarrow> string option \<Rightarrow> string \<Rightarrow> string" where
  "finalize_directive model provider pendingReason toolSummary =
     envelope model provider @
     join NL
       [''You already gathered tool outputs. Now provide the final answer without any more tool calls.'',
        ''If the user asked for a markdown file, create it using <boltAction type='' @ DQ @
          ''file'' @ DQ @ ''>.'',
        (case pendingReason of
           None \<Rightarrow> ''''
         | Some r \<Rightarrow>
             if r = [] then ''''
             else ''Recovery reason: '' @ r @ ''. Summarize progress and continue.''),
        '''',
        ''Tool outputs:'',
        toolSummary]"

definition continuation_directive :: "string \<Rightarrow> string \<Rightarrow> string \<Rightarrow> nat \<Rightarrow> string" where
  "continuation_directive model provider lastUserContent attempts =
     envelope model provider @
     join NL
       [''You scaffolded a project but did not complete the requested implementation.'',
        ''Continue now and do ALL of the following:'',
        ''1) continue from the current project files (do NOT re-run create-vite/create-react-app if package.json already exists).'',
        ''2) implement the requested product requirements from the original user request:'',
        ''   '' @ lastUserContent,
        ''3) install dependencies only if missing.'',
        ''4) include a <boltAction type='' @ DQ @ ''start'' @ DQ @
          ''> command that launches the dev server.'',
        ''5) if a command fails, self-heal and retry with a corrected command.'',
        ''6) your response must start with executable <boltAction> steps (no plan-only prose).'',
        ''7) if preview still shows the starter, replace src/App.tsx (or equivalent entry UI file) with the requested implementation.'',
        ''8) keep the final response concise and execution-focused.'',
        ''9) do NOT run inspection-only commands (ls, pwd, cat, find, tree, env) as standalone steps.'',
        ''10) your first meaningful action must implement feature code files for the original request.'',
        (if attempts \<ge> 2
         then ''11) this is the final continuation attempt: skip diagnostics and apply implementation changes immediately.''
         else ''''),
        '''']"

definition continue_directive :: "chat_env \<Rightarrow> string \<Rightarrow> string \<Rightarrow> string" where
  "continue_directive env model provider = envelope model provider @ CONTINUE_PROMPT env"

definition last_user_properties :: "chat_env \<Rightarrow> run_state \<Rightarrow> message_properties" where
  "last_user_properties env s =
     extractPropertiesFromMessage env
       (case filter (\<lambda>x. msg_role x = role_user) (processedMessages s) of
          [] \<Rightarrow> None
        | m # ms \<Rightarrow> Some (last (m # ms)))"

text \<open>
  The last part of a Run, shared by the two \<^verbatim>\<open>onFinish\<close> callbacks: the recovery is
  reported as succeeded, the closing commentary is written, the monitors are stopped and
  the completion events are emitted.
\<close>

definition complete_run ::
  "chat_env \<Rightarrow> nat \<Rightarrow> string \<Rightarrow> string \<Rightarrow> string \<Rightarrow> run_state \<Rightarrow> run_state" where
  "complete_run env now content model provider s0 =
     (let s1 = (if truthy (pendingRecoveryReason s0) then
                  (writeCommentary env now phase_recovery ''Recovery finished successfully.''
                     st_recovered
                     (Some (''Key changes: Recovery completed and the workflow is stable again.'' @
                            NL @ ''Next: I am sending the final result now.''))
                     (s0\<lparr>recoverySucceeded := True\<rparr>))
                    \<lparr>pendingRecoveryReason := None, pendingRecoveryBackoffMs := 0,
                     forceFinalizeRequested := False\<rparr>
                else s0);
          s2 = (if hasExecutionFailures s1 \<and> latestExecutionFailure s1 \<noteq> None then
                  writeCommentary env now phase_next_step
                    ''Work finished, but one step still needs attention.'' st_warning
                    (Some (''Key changes: A previous step did not finish successfully.'' @ NL @
                           ''Next: I am returning clear recovery instructions to help you resolve it quickly.''))
                    s1
                else
                  writeCommentary env now phase_next_step
                    ''Final response generated and ready for delivery.'' st_complete None s1)
      in emitRunCompletionEvents env now content model provider (stopRunMonitors s2))"

text \<open>
  The force-finalize branch of \<^verbatim>\<open>onFinish\<close> after its recovery pause: the commentary,
  the two synthetic messages and the bounded segment.
\<close>

definition begin_finalize :: "chat_env \<Rightarrow> nat \<Rightarrow> finalize_closure \<Rightarrow> run_state \<Rightarrow> run_state" where
  "begin_finalize env now c s0 =
     (let s1 = writeCommentary env now phase_next_step
                 (if truthy (pendingRecoveryReason s0)
                  then ''Recovery is complete. I am preparing your final answer now.''
                  else ''Execution is complete. I am preparing your final answer now.'')
                 (if truthy (pendingRecoveryReason s0) then st_recovered else st_in_progress)
                 None s0;
          toolSummary =
            (if length (collectedToolOutputs s1) > 0
             then join NL (drop (length (collectedToolOutputs s1) - 6) (collectedToolOutputs s1))
             else ''(no tool results captured)'');
          s2 = push_message env role_assistant (fc_content c) s1;
          s3 = push_message env role_user
                 (finalize_directive (fc_model c) (fc_provider c) (pendingRecoveryReason s2)
                    toolSummary)
                 s2
      in streamText seg_finalize (s3\<lparr>finalizeSegment := Some c\<rparr>))"

text \<open>The resumption of \<^verbatim>\<open>onFinish\<close> when the recovery pause has elapsed.\<close>

definition backoff_elapsed :: "chat_env \<Rightarrow> nat \<Rightarrow> run_state \<Rightarrow> run_state" where
  "backoff_elapsed env now s =
     (case awaitingBackoff s of
        None \<Rightarrow> s
      | Some c \<Rightarrow> begin_finalize env now c (s\<lparr>awaitingBackoff := None\<rparr>))"

text \<open>The \<^verbatim>\<open>onFinish\<close> of the finalize segment.\<close>

definition finalize_onFinish ::
  "chat_env \<Rightarrow> nat \<Rightarrow> string \<Rightarrow> usage option \<Rightarrow> run_state \<Rightarrow> run_state" where
  "finalize_onFinish env now finalContent finalizeUsage s0 =
     (case finalizeSegment s0 of
        None \<Rightarrow> s0
      | Some c \<Rightarrow>
          complete_run env now finalContent (fc_model c) (fc_provider c)
            (record_usage env finalizeUsage s0))"

text \<open>
  The \<^verbatim>\<open>onFinish\<close> of the main options, up to its first suspension. The result is the
  error it throws, if any, and the state it leaves.
\<close>

definition onFinish ::
  "chat_env \<Rightarrow> nat \<Rightarrow> string \<Rightarrow> FinishReason \<Rightarrow> usage option \<Rightarrow> run_state \<Rightarrow>
   thrown option \<times> run_state" where
  "onFinish env now content finishReason tokenUsage s =
     (let s0 = record_usage env tokenUsage s;
          extractedLastUser = last_user_properties env s0;
          model = prop_model extractedLastUser;
          provider = prop_provider extractedLastUser;
          lastUserContent = prop_content extractedLastUser;
          shouldForceFinalize = (finishReason = fr_tool_calls \<or> forceFinalizeRequested s0)
      in if shouldForceFinalize \<and> \<not> forceFinalizeAttempted s0 then
           (let s1 = s0\<lparr>forceFinalizeAttempted := True\<rparr>;
                c = \<lparr>fc_content = content, fc_model = model, fc_provider = provider\<rparr>
            in if pendingRecoveryBackoffMs s1 > 0 then
                 (None,
                  (writeCommentary env now phase_recovery
                     ''I am taking a short recovery pause before the next step.'' st_warning
                     (Some (''Key changes: A quick safety pause is in progress.'' @ NL @
                            ''Next: I will continue automatically right after this pause.''))
                     s1)
                    \<lparr>awaitingBackoff := Some c\<rparr>)
               else (None, begin_finalize env now c s1))
         else
           (let mode = or_else (chatMode env) ''build'';
                runContinuationDecision =
                  analyzeRunContinuation env
                    \<lparr>arg_chatMode = mode, arg_lastUserContent = lastUserContent,
                     arg_assistantContent = content, arg_alreadyAttempted = False,
                     arg_attemptCount = runContinuationAttempts s0\<rparr>;
                continuationLimitReached =
                  (runContinuationAttempts s0 \<ge> MAX_RUN_CONTINUATION_ATTEMPTS);
                shouldContinueForRunIntent =
                  (shouldContinue runContinuationDecision \<and> \<not> continuationLimitReached)
            in if shouldContinueForRunIntent then
                 (let s1 = s0\<lparr>runContinuationAttempts := runContinuationAttempts s0 + 1\<rparr>;
                      continuationAttemptLabel =
                        digits (runContinuationAttempts s1) @ ''/'' @
                        digits MAX_RUN_CONTINUATION_ATTEMPTS;
                      s2 = writeCommentary env now phase_recovery
                             ''I detected that setup finished but the app did not start yet. I will continue automatically.''
                             st_warning
                             (Some (''Key changes: Continuation triggered ('' @
                                    reason runContinuationDecision @ '', attempt '' @
                                    continuationAttemptLabel @
                                    ''). I detected a starter/bootstrap-only response.'' @ NL @
                                    ''Next: I will continue from the existing project state, implement the requested app, and run it.''))
                             s1;
                      s3 = push_message env role_assistant content s2;
                      s4 = push_message env role_user
                             (continuation_directive model provider lastUserContent
                                (runContinuationAttempts s3))
                             s3
                  in (None, streamText seg_continuation s4))
               else if shouldContinue runContinuationDecision \<and> continuationLimitReached \<and>
                       \<not> forcedRunRecoveryAttempted s0 \<and> mode = ''build'' then
                 (let s1 = s0\<lparr>forcedRunRecoveryAttempted := True\<rparr>;
                      s2 = writeCommentary env now phase_recovery
                             ''Automatic recovery is escalating because previous attempts did not produce implementation steps.''
                             st_warning
                             (Some (''Key changes: Escalated continuation recovery after '' @
                                    digits (runContinuationAttempts s1) @ '' attempts ('' @
                                    reason runContinuationDecision @ '').'' @ NL @
                                    ''Next: I will force a file-first implementation response and relaunch preview from the existing project state.''))
                             s1;
                      s3 = push_message env role_assistant content s2;
                      s4 = push_message env role_user
                             (buildForcedRunRecoveryPrompt provider model lastUserContent) s3
                  in (None, streamText seg_forced_recovery s4))
               else if finishReason \<noteq> fr_length then
                 (None, complete_run env now content model provider s0)
               else if stream_switches s0 \<ge> MAX_RESPONSE_SEGMENTS env then
                 (Some (ThrownError ''Cannot continue message: Maximum segments reached''), s0)
               else
                 (let s1 = push_message env role_assistant content s0;
                      s2 = push_message env role_user (continue_directive env model provider) s1
                  in (None, streamText seg_length_continue s2))))"

text \<open>
  The beginning of the main execution: the progress annotation, the commentary and the
  first call of \<^verbatim>\<open>streamText\<close>.
\<close>

definition start_execution :: "chat_env \<Rightarrow> nat \<Rightarrow> run_state \<Rightarrow> run_state" where
  "start_execution env now s0 =
     (let s1 = (writeData (Progress ''response'' ''in-progress'' (progressCounter s0)
                             ''Generating Response'') s0)
                 \<lparr>progressCounter := Suc (progressCounter s0)\<rparr>;
          s2 = writeCommentary env now phase_action
                 ''I am now executing the plan and streaming progress as I go.'' st_in_progress
                 None s1
      in streamText seg_initial s2)"

text \<open>
  The progress annotations of the summary and context phase, each with the next value of
  the counter.
\<close>

datatype context_progress = summary_started | summary_done | context_started | context_done

definition write_context_progress :: "context_progress \<Rightarrow> run_state \<Rightarrow> run_state" where
  "write_context_progress p s =
     (writeData
        (case p of
           summary_started \<Rightarrow>
             Progress ''summary'' ''in-progress'' (progressCounter s) ''Analysing Request''
         | summary_done \<Rightarrow>
             Progress ''summary'' ''complete'' (progressCounter s) ''Analysis Complete''
         | context_started \<Rightarrow>
             Progress ''context'' ''in-progress'' (progressCounter s) ''Determining Files to Read''
         | context_done \<Rightarrow>
             Progress ''context'' ''complete'' (progressCounter s) ''Code Files Selected'')
        s)
       \<lparr>progressCounter := Suc (progressCounter s)\<rparr>"

text \<open>
  The events of a Run. The first six are the statements of \<^verbatim>\<open>execute\<close> before the main
  execution, taken one by one since timers fire between them: a direct call of
  \<^verbatim>\<open>writeCommentary\<close> (the planning and sub-agent commentary), the start of the
  heartbeat, a progress annotation, the summary once created, and the sub-agent and
  context annotations. The others are the callbacks; \<open>StreamErrored\<close> is the
  \<^verbatim>\<open>onError\<close> of the data stream, which stops the heartbeat.
\<close>

datatype run_event =
    Commentary nat AgentCommentaryPhase string commentary_status "string option"
  | StartHeartbeat
  | ContextProgress context_progress
  | SummaryCreated string
  | SubAgentWritten string
  | AnnotationWritten string
  | StartExecution nat
  | HeartbeatTick nat
  | StreamTimeout nat RecoverySignal
  | StepFinished nat step_report
  | Finished nat string FinishReason "usage option"
  | BackoffElapsed nat
  | FinalizeFinished nat string "usage option"
  | StreamErrored

fun handle :: "chat_env \<Rightarrow> run_event \<Rightarrow> run_state \<Rightarrow> thrown option \<times> run_state" where
  "handle env (Commentary now phase msg st detail) s =
     (None, writeCommentary env now phase msg st detail s)"
| "handle env StartHeartbeat s = (None, startCommentaryHeartbeat s)"
| "handle env (ContextProgress p) s = (None, write_context_progress p s)"
| "handle env (SummaryCreated sm) s =
     (None, writeData (ContextAnnotation sm) (s\<lparr>summary := Some sm\<rparr>))"
| "handle env (SubAgentWritten a) s = (None, writeData (SubAgent a) s)"
| "handle env (AnnotationWritten a) s = (None, writeData (ContextAnnotation a) s)"
| "handle env (StartExecution now) s = (None, start_execution env now s)"
| "handle env (HeartbeatTick now) s = (None, heartbeat_tick env now s)"
| "handle env (StreamTimeout now signal) s = (None, onTimeout env now signal s)"
| "handle env (StepFinished now step) s = (None, onStepFinish env now step s)"
| "handle env (Finished now content finishReason u) s = onFinish env now content finishReason u s"
| "handle env (BackoffElapsed now) s = (None, backoff_elapsed env now s)"
| "handle env (FinalizeFinished now finalContent u) s =
     (None, finalize_onFinish env now finalContent u s)"
| "handle env StreamErrored s = (None, stopCommentaryHeartbeat s)"

text \<open>A Run stops at the first error thrown.\<close>

fun run_events :: "chat_env \<Rightarrow> run_event list \<Rightarrow> run_state \<Rightarrow> thrown option \<times> run_state" where
  "run_events env [] s = (None, s)"
| "run_events env (e # es) s =
     (case handle env e s of
        (Some err, s') \<Rightarrow> (Some err, s')
      | (None, s') \<Rightarrow> run_events env es s')"

text \<open>The orders of the commentary events, in the order they were written.\<close>

fun commentary_orders :: "data_event list \<Rightarrow> nat list" where
  "commentary_orders [] = []"
| "commentary_orders (AgentCommentary phase st order msg ts detail # es) =
     order # commentary_orders es"
| "commentary_orders (e # es) = commentary_orders es"

text \<open>
  The events of the completion batch: the usage event and its annotation, the run metrics,
  the project memory and the progress event that closes the response.
\<close>

fun is_usage_data :: "data_event \<Rightarrow> bool" where
  "is_usage_data (UsageData u ts) = True"
| "is_usage_data e = False"

fun is_usage_annotation :: "data_event \<Rightarrow> bool" where
  "is_usage_annotation (UsageAnnotation u) = True"
| "is_usage_annotation e = False"

fun is_run_metrics :: "data_event \<Rightarrow> bool" where
  "is_run_metrics (RunMetrics m a) = True"
| "is_run_metrics e = False"

fun is_project_memory :: "data_event \<Rightarrow> bool" where
  "is_project_memory (ProjectMemory p) = True"
| "is_project_memory e = False"

fun is_final_progress :: "data_event \<Rightarrow> bool" where
  "is_final_progress (Progress label st order msg) = (label = ''response'' \<and> st = ''complete'')"
| "is_final_progress e = False"

definition is_completion_event :: "data_event \<Rightarrow> bool" where
  "is_completion_event e =
     (is_usage_data e \<or> is_usage_annotation e \<or> is_run_metrics e \<or> is_project_memory e \<or>
      is_final_progress e)"

definition completion_events :: "run_state \<Rightarrow> data_event list" where
  "completion_events s = filter is_completion_event (written s)"

definition is_completion_batch :: "data_event list \<Rightarrow> bool" where
  "is_completion_batch es =
     list_all2 (\<lambda>p e. p e)
       [is_usage_data, is_usage_annotation, is_run_metrics, is_project_memory, is_final_progress]
       es"

definition forced_recovery_turns :: "run_state \<Rightarrow> nat" where
  "forced_recovery_turns s = length (filter (\<lambda>g. seg_kind g = seg_forced_recovery) (issued s))"

definition emitted_orders :: "run_state \<Rightarrow> nat list" where
  "emitted_orders s = commentary_orders (written s)"

text \<open>The invariants of a Run.\<close>

definition ordered :: "run_state \<Rightarrow> bool" where
  "ordered s \<longleftrightarrow>
     sorted_wrt (<) (emitted_orders s) \<and> (\<forall>k \<in> set (emitted_orders s). k < progressCounter s)"

definition completion_inv :: "run_state \<Rightarrow> bool" where
  "completion_inv s \<longleftrightarrow>
     (if completionEmitted s then is_completion_batch (completion_events s)
      else completion_events s = [])"

definition forced_inv :: "run_state \<Rightarrow> bool" where
  "forced_inv s \<longleftrightarrow>
     forced_recovery_turns s = (if forcedRunRecoveryAttempted s then 1 else 0)"

text \<open>A step from \<open>s\<close> to \<open>s'\<close> that keeps every invariant of the Run.\<close>

definition keeps_invariants :: "run_state \<Rightarrow> run_state \<Rightarrow> bool" where
  "keeps_invariants s s' \<longleftrightarrow>
     (ordered s \<longrightarrow> ordered s') \<and>
     (completion_inv s \<longrightarrow> completion_inv s') \<and>
     (completionEmitted s \<longrightarrow> completionEmitted s' \<and> completion_events s' = completion_events s) \<and>
     (runContinuationAttempts s \<le> MAX_RUN_CONTINUATION_ATTEMPTS \<longrightarrow>
        runContinuationAttempts s' \<le> MAX_RUN_CONTINUATION_ATTEMPTS) \<and>
     (forced_inv s \<longrightarrow> forced_inv s') \<and>
     stream_switches s' = stream_switches s"

text \<open>
  The conditions under which \<^verbatim>\<open>onFinish\<close> takes each of its branches, in the order
  it tests them: the force-finalize turn, the run continuation, the forced recovery.
  \<open>run_continuation_decision\<close> is the decision of the analyzer for the finished
  segment.
\<close>

definition force_finalize_due :: "FinishReason \<Rightarrow> run_state \<Rightarrow> bool" where
  "force_finalize_due finishReason s \<longleftrightarrow>
     (finishReason = fr_tool_calls \<or> forceFinalizeRequested s) \<and> \<not> forceFinalizeAttempted s"

definition run_continuation_decision ::
  "chat_env \<Rightarrow> string \<Rightarrow> run_state \<Rightarrow> continuation_decision" where
  "run_continuation_decision env content s =
     analyzeRunContinuation env
       \<lparr>arg_chatMode = or_else (chatMode env) ''build'',
        arg_lastUserContent = prop_content (last_user_properties env s),
        arg_assistantContent = content, arg_alreadyAttempted = False,
        arg_attemptCount = runContinuationAttempts s\<rparr>"

definition continuation_due :: "chat_env \<Rightarrow> string \<Rightarrow> run_state \<Rightarrow> bool" where
  "continuation_due env content s \<longleftrightarrow>
     shouldContinue (run_continuation_decision env content s) \<and>
     runContinuationAttempts s < MAX_RUN_CONTINUATION_ATTEMPTS"

definition forced_recovery_due :: "chat_env \<Rightarrow> string \<Rightarrow> run_state \<Rightarrow> bool" where
  "forced_recovery_due env content s \<longleftrightarrow>
     shouldContinue (run_continuation_decision env content s) \<and>
     MAX_RUN_CONTINUATION_ATTEMPTS \<le> runContinuationAttempts s \<and>
     \<not> forcedRunRecoveryAttempted s \<and> or_else (chatMode env) ''build'' = ''build''"

text \<open>
  The callbacks that complete a Run: an \<^verbatim>\<open>onFinish\<close> that takes its completion branch
  (none of the three branches above is due and the finish reason is not \<^verbatim>\<open>length\<close>),
  and the \<^verbatim>\<open>onFinish\<close> of the finalize segment, which exists once that segment has been
  issued.
\<close>

definition completes_run :: "chat_env \<Rightarrow> run_event \<Rightarrow> run_state \<Rightarrow> bool" where
  "completes_run env e s =
     (case e of
        Finished now content finishReason u \<Rightarrow>
          \<not> force_finalize_due finishReason s \<and> \<not> continuation_due env content s \<and>
          \<not> forced_recovery_due env content s \<and> finishReason \<noteq> fr_length
      | FinalizeFinished now finalContent u \<Rightarrow> finalizeSegment s \<noteq> None
      | _ \<Rightarrow> False)"

text \<open>A concrete environment and request, for the runs evaluated below.\<close>

definition demo_env :: chat_env where
  "demo_env =
     \<lparr>chatMode = Some ''build'', requestStartedAt = 1000, runId = ''run-1'',
      manualInterventionDetected = False, MAX_RESPONSE_SEGMENTS = 2,
      CONTINUE_PROMPT = ''Continue your prior response.'',
      analyzeRunContinuation =
        (\<lambda>a. \<lparr>shouldContinue = (arg_chatMode a = ''build'' \<and> arg_assistantContent a = ''npm install''),
              reason = ''scaffold-only''\<rparr>),
      extractPropertiesFromMessage =
        (\<lambda>m. \<lparr>prop_model = ''gpt-5-codex'', prop_provider = ''OpenAI'',
              prop_content = (case m of None \<Rightarrow> [] | Some x \<Rightarrow> msg_content x)\<rparr>),
      getCommentaryPoolMessage = (\<lambda>phase seed fallback. fallback),
      enforceCommentaryContract = (\<lambda>phase msg detail. (msg, detail)),
      buildCommentaryHeartbeat = (\<lambda>elapsed phase. (phase, ''Still working on it.'', None)),
      generateId = (\<lambda>n. ''id-'' @ digits n),
      addUsageTotals =
        (\<lambda>a b. \<lparr>completionTokens = completionTokens a + completionTokens b,
                promptTokens = promptTokens a + promptTokens b,
                totalTokens = totalTokens a + totalTokens b\<rparr>),
      upsertProjectMemory =
        (\<lambda>sm. \<lparr>pm_projectKey = ''project'', pm_summary = sm, pm_architecture = [],
               pm_latestGoal = ''build a todo app'', pm_runCount = 1, pm_updatedAt = []\<rparr>),
      recordAgentRunMetrics = (\<lambda>m. ''aggregate'')\<rparr>"

definition demo_messages :: "message list" where
  "demo_messages = [\<lparr>msg_id = ''u1'', msg_role = role_user, msg_content = ''build a todo app''\<rparr>]"

definition stalled_step :: step_report where
  "stalled_step =
     \<lparr>step_toolNames = [], step_toolResults = [], step_checkpoints = [],
      step_executionFailure = None,
      step_recoverySignal =
        Some \<lparr>sig_reason = ''no-progress'', sig_backoffMs = 1000, sig_forceFinalize = True,
              sig_message = ''I am stuck and will wrap up.'', sig_detail = None\<rparr>\<rparr>"


definition timeout_signal :: RecoverySignal where
  "timeout_signal =
     \<lparr>sig_reason = ''stream-timeout'', sig_backoffMs = 1000, sig_forceFinalize = False,
      sig_message = ''The model went quiet. I am recovering.'', sig_detail = None\<rparr>"

chapter \<open>Theorems\<close>

section \<open>Correctness of the matcher\<close>

lemma nullable_lang: "nullable r \<longleftrightarrow> [] \<in> lang r"
  by (induction r) (auto intro: rep.intros)

lemma rep_cons:
  "c # w \<in> rep A \<longleftrightarrow> (\<exists>u v. w = u @ v \<and> c # u \<in> A \<and> v \<in> rep A)"
proof
  assume "c # w \<in> rep A"
  then show "\<exists>u v. w = u @ v \<and> c # u \<in> A \<and> v \<in> rep A"
  proof (induction "c # w" rule: rep.induct)
    case (rep_app u v)
    then show ?case by (cases u) auto
  qed
next
  assume "\<exists>u v. w = u @ v \<and> c # u \<in> A \<and> v \<in> rep A"
  then obtain u v where "w = u @ v" "c # u \<in> A" "v \<in> rep A" by blast
  then show "c # w \<in> rep A" using rep_app [of "c # u" A v] by simp
qed

lemma lang_Seq_cons:
  "c # w \<in> lang (Seq r s) \<longleftrightarrow>
     (\<exists>u v. w = u @ v \<and> c # u \<in> lang r \<and> v \<in> lang s) \<or> ([] \<in> lang r \<and> c # w \<in> lang s)"
proof
  assume "c # w \<in> lang (Seq r s)"
  then obtain u v where uv: "c # w = u @ v" "u \<in> lang r" "v \<in> lang s" by auto
  show "(\<exists>u v. w = u @ v \<and> c # u \<in> lang r \<and> v \<in> lang s) \<or> ([] \<in> lang r \<and> c # w \<in> lang s)"
  proof (cases u)
    case Nil
    with uv show ?thesis by simp
  next
    case (Cons a u')
    with uv have "w = u' @ v" "c # u' \<in> lang r" by simp_all
    with uv(3) show ?thesis by blast
  qed
next
  assume "(\<exists>u v. w = u @ v \<and> c # u \<in> lang r \<and> v \<in> lang s) \<or> ([] \<in> lang r \<and> c # w \<in> lang s)"
  then show "c # w \<in> lang (Seq r s)"
  proof
    assume "\<exists>u v. w = u @ v \<and> c # u \<in> lang r \<and> v \<in> lang s"
    then obtain u v where "w = u @ v" "c # u \<in> lang r" "v \<in> lang s" by blast
    then have "c # w = (c # u) @ v \<and> c # u \<in> lang r \<and> v \<in> lang s" by simp
    then show ?thesis unfolding lang.simps by blast
  next
    assume "[] \<in> lang r \<and> c # w \<in> lang s"
    then have "c # w = [] @ (c # w) \<and> [] \<in> lang r \<and> c # w \<in> lang s" by simp
    then show ?thesis unfolding lang.simps by blast
  qed
qed

lemma deriv_lang: "w \<in> lang (deriv c r) \<longleftrightarrow> c # w \<in> lang r"
proof (induction r arbitrary: w)
  case (Seq r s)
  have "w \<in> lang (deriv c (Seq r s)) \<longleftrightarrow>
      (\<exists>u v. w = u @ v \<and> u \<in> lang (deriv c r) \<and> v \<in> lang s) \<or> (nullable r \<and> w \<in> lang (deriv c s))"
    by auto
  also have "\<dots> \<longleftrightarrow> (\<exists>u v. w = u @ v \<and> c # u \<in> lang r \<and> v \<in> lang s) \<or> ([] \<in> lang r \<and> c # w \<in> lang s)"
    by (simp only: Seq nullable_lang)
  finally show ?case by (simp only: lang_Seq_cons)
next
  case (Star r)
  have "w \<in> lang (deriv c (Star r)) \<longleftrightarrow> (\<exists>u v. w = u @ v \<and> u \<in> lang (deriv c r) \<and> v \<in> rep (lang r))"
    by auto
  then show ?case by (simp only: Star rep_cons lang.simps)
qed auto

lemma rx_match_lang: "rx_match r w \<longleftrightarrow> w \<in> lang r"
  by (induction w arbitrary: r) (simp_all add: nullable_lang deriv_lang)

lemma rx_prefix_lang: "rx_prefix r s \<longleftrightarrow> (\<exists>m post. s = m @ post \<and> m \<in> lang r)"
proof (induction s arbitrary: r)
  case Nil
  then show ?case by (simp add: nullable_lang)
next
  case (Cons c cs)
  have "(\<exists>m post. c # cs = m @ post \<and> m \<in> lang r) \<longleftrightarrow>
        [] \<in> lang r \<or> (\<exists>m post. cs = m @ post \<and> c # m \<in> lang r)"
    by (auto simp: Cons_eq_append_conv)
  then show ?case by (simp add: Cons nullable_lang deriv_lang)
qed

lemma rx_search_lang: "rx_search r s \<longleftrightarrow> (\<exists>pre m post. s = pre @ m @ post \<and> m \<in> lang r)"
proof (induction s)
  case Nil
  then show ?case by (simp add: nullable_lang)
next
  case (Cons c cs)
  have "(\<exists>pre m post. c # cs = pre @ m @ post \<and> m \<in> lang r) \<longleftrightarrow>
        (\<exists>m post. c # cs = m @ post \<and> m \<in> lang r) \<or> (\<exists>pre m post. cs = pre @ m @ post \<and> m \<in> lang r)"
    (is "?L \<longleftrightarrow> ?A \<or> ?B")
  proof
    assume ?L
    then obtain pre m post where h: "c # cs = pre @ m @ post" "m \<in> lang r" by blast
    show "?A \<or> ?B"
    proof (cases pre)
      case Nil
      with h show ?thesis by auto
    next
      case (Cons a pre')
      with h have "cs = pre' @ m @ post" by simp
      with h(2) show ?thesis by blast
    qed
  next
    assume "?A \<or> ?B"
    then show ?L
    proof
      assume ?A
      then obtain m post where "c # cs = [] @ m @ post" "m \<in> lang r" by auto
      then show ?L by blast
    next
      assume ?B
      then obtain pre m post where "c # cs = (c # pre) @ m @ post" "m \<in> lang r" by auto
      then show ?L by blast
    qed
  qed
  then show ?case using Cons rx_prefix_lang [of r "c # cs"] by simp
qed

lemma lang_Seq_Atom: "w \<in> lang (Seq (Atom p) r) \<longleftrightarrow> (\<exists>c v. w = c # v \<and> p c \<and> v \<in> lang r)"
proof
  assume "w \<in> lang (Seq (Atom p) r)"
  then obtain u v where "w = u @ v" "u \<in> lang (Atom p)" "v \<in> lang r" by auto
  then show "\<exists>c v. w = c # v \<and> p c \<and> v \<in> lang r" by auto
next
  assume "\<exists>c v. w = c # v \<and> p c \<and> v \<in> lang r"
  then obtain c v where "w = [c] @ v" "[c] \<in> lang (Atom p)" "v \<in> lang r" by auto
  then show "w \<in> lang (Seq (Atom p) r)" unfolding lang.simps by blast
qed

lemma lang_chars: "m \<in> lang (chars eq ps) \<longleftrightarrow> list_all2 eq ps m"
proof (induction ps arbitrary: m)
  case Nil
  then show ?case by simp
next
  case (Cons p ps)
  have "m \<in> lang (chars eq (p # ps)) \<longleftrightarrow> (\<exists>c v. m = c # v \<and> eq p c \<and> v \<in> lang (chars eq ps))"
    by (simp only: chars.simps lang_Seq_Atom)
  then show ?case by (simp add: Cons list_all2_Cons1)
qed

lemma list_all2_ci: "list_all2 ci ps m \<longleftrightarrow> map ascii_lower m = map ascii_lower ps"
  by (induction ps arbitrary: m) (auto simp: list_all2_Cons1 ci_def)

lemma lang_Star_Atom: "lang (Star (Atom p)) = {w. \<forall>c \<in> set w. p c}"
proof (rule set_eqI, rule iffI)
  fix w assume "w \<in> lang (Star (Atom p))"
  then have "w \<in> rep {[c] | c. p c}" by simp
  then have "\<forall>c \<in> set w. p c" by (induction rule: rep.induct) auto
  then show "w \<in> {w. \<forall>c \<in> set w. p c}" by simp
next
  fix w assume "w \<in> {w. \<forall>c \<in> set w. p c}"
  then have "\<forall>c \<in> set w. p c" by simp
  then have "w \<in> rep {[c] | c. p c}"
  proof (induction w)
    case Nil
    show ?case by (rule rep_nil)
  next
    case (Cons a w)
    then have "[a] \<in> {[c] | c. p c}" "w \<in> rep {[c] | c. p c}" by simp_all
    then have "[a] @ w \<in> rep {[c] | c. p c}" by (rule rep_app)
    then show ?case by simp
  qed
  then show "w \<in> lang (Star (Atom p))" by simp
qed

lemma String_includes_iff: "String_includes s x \<longleftrightarrow> (\<exists>pre post. s = pre @ x @ post)"
proof (induction s)
  case Nil
  then show ?case by auto
next
  case (Cons c cs)
  have "(\<exists>pre post. c # cs = pre @ x @ post) \<longleftrightarrow> prefix x (c # cs) \<or> (\<exists>pre post. cs = pre @ x @ post)"
    (is "?L \<longleftrightarrow> ?A \<or> ?B")
  proof
    assume ?L
    then obtain pre post where h: "c # cs = pre @ x @ post" by blast
    show "?A \<or> ?B"
    proof (cases pre)
      case Nil
      with h show ?thesis by (auto simp: prefix_def)
    next
      case (Cons a pre')
      with h have "cs = pre' @ x @ post" by simp
      then show ?thesis by blast
    qed
  next
    assume "?A \<or> ?B"
    then show ?L
    proof
      assume ?A
      then obtain post where "c # cs = [] @ x @ post" by (auto simp: prefix_def)
      then show ?L by blast
    next
      assume ?B
      then obtain pre post where "c # cs = (c # pre) @ x @ post" by auto
      then show ?L by blast
    qed
  qed
  then show ?case using Cons by simp
qed

lemma ascii_lower_lower_char: "ascii_lower (lower_char c) = lower_char c"
proof -
  define n where "n = (of_char c :: nat)"
  have "n < 256" unfolding n_def by simp
  show ?thesis
  proof (cases "(65 \<le> n \<and> n \<le> 90) \<or> (192 \<le> n \<and> n \<le> 222 \<and> n \<noteq> 215)")
    case True
    then have l: "lower_char c = char_of (n + 32)" by (auto simp add: lower_char_def n_def Let_def)
    from True have "n + 32 < 256" by arith
    then have "(of_char (char_of (n + 32)) :: nat) = n + 32" by simp
    with True have "\<not> (65 \<le> (of_char (lower_char c) :: nat) \<and> (of_char (lower_char c) :: nat) \<le> 90)"
      unfolding l by arith
    then show ?thesis by (auto simp add: ascii_lower_def Let_def)
  next
    case False
    then have l: "lower_char c = c" by (auto simp add: lower_char_def n_def Let_def)
    from False have "\<not> (65 \<le> n \<and> n \<le> 90)" by arith
    then show ?thesis unfolding l by (auto simp add: ascii_lower_def n_def Let_def)
  qed
qed


lemma map_ascii_lower_sub:
  assumes "String_toLowerCase t = pre @ a @ post"
  shows "map ascii_lower a = a"
proof -
  have "\<forall>c \<in> set (String_toLowerCase t). ascii_lower c = c"
    by (auto simp: String_toLowerCase_def ascii_lower_lower_char)
  with assms have "\<forall>c \<in> set a. ascii_lower c = c" by simp
  then show ?thesis by (simp add: map_idI)
qed

lemma lower_rotate: "map ascii_lower ''rotate'' = ''rotate''" by code_simp
lemma lower_required: "map ascii_lower ''required'' = ''required''" by code_simp
lemma lower_http: "map ascii_lower ''http'' = ''http''" by code_simp
lemma lower_colon: "map ascii_lower ''://'' = ''://''" by code_simp
lemma lower_s: "ascii_lower CHR ''s'' = CHR ''s''" by code_simp

lemma lang_Seq: "m \<in> lang (Seq r s) \<longleftrightarrow> (\<exists>u v. m = u @ v \<and> u \<in> lang r \<and> v \<in> lang s)"
  by simp

lemma conc3:
  "(\<exists>a v. m = a @ v \<and> P a \<and> (\<exists>sep b. v = sep @ b \<and> Q sep \<and> R b)) \<longleftrightarrow>
   (\<exists>a sep b. m = a @ sep @ b \<and> P a \<and> Q sep \<and> R b)"
  by blast

lemma lang_word_sep_word:
  "m \<in> lang (Seq (chars ci A) (Seq (Star (Atom cls)) (chars ci B))) \<longleftrightarrow>
     (\<exists>a sep b. m = a @ sep @ b \<and> map ascii_lower a = map ascii_lower A \<and>
        (\<forall>c \<in> set sep. cls c) \<and> map ascii_lower b = map ascii_lower B)"
  by (simp only: lang_Seq lang_chars list_all2_ci lang_Star_Atom conc3 mem_Collect_eq)

lemma search_word_sep_word:
  assumes A: "map ascii_lower A = A" and B: "map ascii_lower B = B"
  shows "rx_search (Seq (chars ci A) (Seq (Star (Atom cls)) (chars ci B))) (String_toLowerCase t) \<longleftrightarrow>
     (\<exists>pre sep post. String_toLowerCase t = pre @ A @ sep @ B @ post \<and> (\<forall>c \<in> set sep. cls c))"
    (is "?L \<longleftrightarrow> ?R")
proof
  assume ?L
  then obtain pre m post where
    n: "String_toLowerCase t = pre @ m @ post" and
    m: "m \<in> lang (Seq (chars ci A) (Seq (Star (Atom cls)) (chars ci B)))"
    unfolding rx_search_lang by blast
  from m obtain a sep b where
    abc: "m = a @ sep @ b" "map ascii_lower a = map ascii_lower A"
      "\<forall>c \<in> set sep. cls c" "map ascii_lower b = map ascii_lower B"
    unfolding lang_word_sep_word by blast
  have "String_toLowerCase t = pre @ a @ (sep @ b @ post)" using n abc(1) by simp
  then have "map ascii_lower a = a" by (rule map_ascii_lower_sub)
  with abc(2) A have a: "a = A" by simp
  have "String_toLowerCase t = (pre @ a @ sep) @ b @ post" using n abc(1) by simp
  then have "map ascii_lower b = b" by (rule map_ascii_lower_sub)
  with abc(4) B have b: "b = B" by simp
  have "String_toLowerCase t = pre @ A @ sep @ B @ post"
    using n abc(1) a b by simp
  with abc(3) show ?R by blast
next
  assume ?R
  then obtain pre sep post where
    h: "String_toLowerCase t = pre @ A @ sep @ B @ post" "\<forall>c \<in> set sep. cls c"
    by blast
  define m where "m = A @ sep @ B"
  have "m \<in> lang (Seq (chars ci A) (Seq (Star (Atom cls)) (chars ci B)))"
    unfolding lang_word_sep_word m_def using h(2) by blast
  moreover have "String_toLowerCase t = pre @ m @ post" using h(1) by (simp add: m_def)
  ultimately show ?L unfolding rx_search_lang by blast
qed

lemma rotate_search:
  "rx_search ROTATE_REQUIRED_REGEX (String_toLowerCase t) \<longleftrightarrow> matches_rotate_required t"
  unfolding ROTATE_REQUIRED_REGEX_def matches_rotate_required_def
  by (rule search_word_sep_word [OF lower_rotate lower_required])

lemma snippet_search:
  "list_ex (\<lambda>snippet. String_includes (String_toLowerCase t) snippet) PLACEHOLDER_SNIPPETS
     \<longleftrightarrow> contains_placeholder_snippet t"
  unfolding contains_placeholder_snippet_def list_ex_iff String_includes_iff ..

section \<open>Properties of the credential helpers\<close>

lemma trim_fix:
  assumes "t = [] \<or> (\<not> js_space (hd t) \<and> \<not> js_space (last t))"
  shows "String_trim t = t"
proof (cases t)
  case Nil
  then show ?thesis by (simp add: String_trim_def)
next
  case (Cons a u)
  with assms have h: "\<not> js_space (hd t)" "\<not> js_space (last t)" by simp_all
  from Cons h(1) have 1: "dropWhile js_space t = t" by simp
  from Cons have "rev t \<noteq> []" by simp
  moreover have "\<not> js_space (hd (rev t))" using h(2) by (simp add: hd_rev)
  ultimately have 2: "dropWhile js_space (rev t) = rev t" by (cases "rev t") simp_all
  show ?thesis by (simp add: String_trim_def 1 2)
qed

lemma last_dropWhile_ne: "dropWhile P xs \<noteq> [] \<Longrightarrow> last (dropWhile P xs) = last xs"
  by (induction xs) (auto split: if_splits)

lemma trim_shape:
  "String_trim s = [] \<or> (\<not> js_space (hd (String_trim s)) \<and> \<not> js_space (last (String_trim s)))"
proof (cases "String_trim s = []")
  case True
  then show ?thesis by simp
next
  case False
  define u where "u = dropWhile js_space s"
  define w where "w = dropWhile js_space (rev u)"
  have t: "String_trim s = rev w" by (simp add: String_trim_def u_def w_def)
  with False have wne: "w \<noteq> []" by simp
  then have "\<not> js_space (hd w)" unfolding w_def by (rule hd_dropWhile)
  then have l: "\<not> js_space (last (String_trim s))" using wne by (simp add: t last_rev)
  from wne have une: "u \<noteq> []" by (auto simp: w_def)
  then have hu: "\<not> js_space (hd u)" unfolding u_def by (rule hd_dropWhile)
  have "last w = last (rev u)" using wne unfolding w_def by (rule last_dropWhile_ne)
  also have "\<dots> = hd u" using une by (simp add: last_rev)
  finally have "hd (String_trim s) = hd u" using wne by (simp add: t hd_rev)
  with hu l show ?thesis by simp
qed

lemma trim_idem: "String_trim (String_trim s) = String_trim s"
  by (rule trim_fix) (rule trim_shape)

lemma toLowerCase_Nil: "String_toLowerCase t = [] \<longleftrightarrow> t = []"
  by (simp add: String_toLowerCase_def)

lemma lang_plus_Atom:
  "u \<in> lang (Seq (Atom p) (Star (Atom p))) \<longleftrightarrow> u \<noteq> [] \<and> (\<forall>c \<in> set u. p c)"
  unfolding lang_Seq_Atom lang_Star_Atom by (cases u) auto

lemma lang_Atom_eq: "z \<in> lang (Atom (\<lambda>c. c = k)) \<longleftrightarrow> z = [k]"
  by auto

lemma bracket_lang:
  "t \<in> lang (Seq (Atom (\<lambda>c. c = CHR ''<''))
         (Seq (Seq (Atom (\<lambda>c. c \<noteq> CHR ''>'')) (Star (Atom (\<lambda>c. c \<noteq> CHR ''>''))))
              (Atom (\<lambda>c. c = CHR ''>'')))) \<longleftrightarrow> is_bracket_wrapped t"
proof -
  have "t \<in> lang (Seq (Atom (\<lambda>c. c = CHR ''<''))
         (Seq (Seq (Atom (\<lambda>c. c \<noteq> CHR ''>'')) (Star (Atom (\<lambda>c. c \<noteq> CHR ''>''))))
              (Atom (\<lambda>c. c = CHR ''>'')))) \<longleftrightarrow>
     (\<exists>c v. t = c # v \<and> c = CHR ''<'' \<and>
        (\<exists>u z. v = u @ z \<and> (u \<noteq> [] \<and> (\<forall>c \<in> set u. c \<noteq> CHR ''>'')) \<and> z = [CHR ''>'']))"
    by (simp only: lang_Seq_Atom [of t] lang_Seq [of _ "Seq (Atom (\<lambda>c. c \<noteq> CHR ''>'')) (Star (Atom (\<lambda>c. c \<noteq> CHR ''>'')))"]
        lang_plus_Atom lang_Atom_eq)
  also have "\<dots> \<longleftrightarrow> is_bracket_wrapped t"
    unfolding is_bracket_wrapped_def by auto
  finally show ?thesis .
qed

lemma lang_word_opt_word:
  "m \<in> lang (Seq (chars ci A) (Seq (Alt (Atom (ci x)) Empty) (chars ci B))) \<longleftrightarrow>
     map ascii_lower m = map ascii_lower A @ map ascii_lower B \<or>
     map ascii_lower m = map ascii_lower A @ [ascii_lower x] @ map ascii_lower B"
    (is "?L \<longleftrightarrow> ?R")
proof
  assume ?L
  then obtain a v where av: "m = a @ v" "a \<in> lang (chars ci A)"
      "v \<in> lang (Seq (Alt (Atom (ci x)) Empty) (chars ci B))"
    unfolding lang_Seq [of m] by blast
  from av(3) obtain o' b where ob: "v = o' @ b" "o' \<in> lang (Alt (Atom (ci x)) Empty)"
      "b \<in> lang (chars ci B)"
    unfolding lang_Seq [of v] by blast
  from av(2) have a: "map ascii_lower a = map ascii_lower A" by (simp only: lang_chars list_all2_ci)
  from ob(3) have b: "map ascii_lower b = map ascii_lower B" by (simp only: lang_chars list_all2_ci)
  from ob(2) have "o' = [] \<or> (\<exists>c. o' = [c] \<and> ascii_lower c = ascii_lower x)"
    by (auto simp: ci_def)
  then show ?R using av(1) ob(1) a b by auto
next
  assume R: ?R
  have "\<exists>a o' b. m = a @ o' @ b \<and> map ascii_lower a = map ascii_lower A \<and>
      (o' = [] \<or> (\<exists>c. o' = [c] \<and> ascii_lower c = ascii_lower x)) \<and>
      map ascii_lower b = map ascii_lower B"
    using R
  proof
    assume "map ascii_lower m = map ascii_lower A @ map ascii_lower B"
    then obtain a b where "m = a @ [] @ b" "map ascii_lower a = map ascii_lower A"
        "map ascii_lower b = map ascii_lower B"
      by (auto simp: map_eq_append_conv)
    then show ?thesis by blast
  next
    assume "map ascii_lower m = map ascii_lower A @ [ascii_lower x] @ map ascii_lower B"
    then obtain a c b where "m = a @ [c] @ b" "map ascii_lower a = map ascii_lower A"
        "ascii_lower c = ascii_lower x" "map ascii_lower b = map ascii_lower B"
      by (auto simp: map_eq_append_conv)
    then show ?thesis by blast
  qed
  then obtain a o' b where h: "m = a @ o' @ b" "map ascii_lower a = map ascii_lower A"
      "o' = [] \<or> (\<exists>c. o' = [c] \<and> ascii_lower c = ascii_lower x)"
      "map ascii_lower b = map ascii_lower B"
    by blast
  from h(2) have a: "a \<in> lang (chars ci A)" by (simp only: lang_chars list_all2_ci)
  from h(4) have b: "b \<in> lang (chars ci B)" by (simp only: lang_chars list_all2_ci)
  from h(3) have o: "o' \<in> lang (Alt (Atom (ci x)) Empty)" by (auto simp: ci_def)
  from o b have "o' @ b \<in> lang (Seq (Alt (Atom (ci x)) Empty) (chars ci B))"
    unfolding lang_Seq [of "o' @ b"] by blast
  with a h(1) show ?L unfolding lang_Seq [of m] by blast
qed

lemma http_prefix:
  "rx_prefix (Seq (chars ci ''http'') (Seq (Alt (Atom (ci CHR ''s'')) Empty) (chars ci ''://''))) t
     \<longleftrightarrow> begins_with_http t"
proof -
  have e1: "map ascii_lower ''http'' @ map ascii_lower ''://'' = ''http://''"
    by (simp only: lower_http lower_colon) simp
  have e2: "map ascii_lower ''http'' @ [ascii_lower CHR ''s''] @ map ascii_lower ''://'' = ''https://''"
    by (simp only: lower_http lower_colon lower_s) simp
  show ?thesis
    unfolding rx_prefix_lang lang_word_opt_word e1 e2 begins_with_http_def by blast
qed

lemma isPlaceholderCredential_trimmed:
  assumes "String_trim t = t"
  shows "isPlaceholderCredential t \<longleftrightarrow> placeholder_in_words t"
proof -
  have b: "isBracketPlaceholder t \<longleftrightarrow> is_bracket_wrapped t"
    unfolding isBracketPlaceholder_def assms rx_match_lang by (rule bracket_lang)
  show ?thesis
    unfolding isPlaceholderCredential_def placeholder_in_words_def Let_def assms
      length_0_conv toLowerCase_Nil rotate_search snippet_search b
    by auto
qed

text \<open>
  Claim C10. For every input, \<^verbatim>\<open>normalizeHttpUrl\<close> returns the trimmed string exactly
  when the input is a string whose trimmed value is non-empty, is not a placeholder
  credential (empty, matching rotate-required, wrapped in angle brackets, or containing
  one of the placeholder snippets, read without regard to case) and begins with
  \<^verbatim>\<open>http://\<close> or \<^verbatim>\<open>https://\<close> in any case; for every other input, a non-string
  included, it returns \<^verbatim>\<open>undefined\<close>.
\<close>

theorem normalizeHttpUrl_spec:
  "normalizeHttpUrl v =
     (case v of
        JString s \<Rightarrow>
          if String_trim s \<noteq> [] \<and> \<not> placeholder_in_words (String_trim s) \<and>
             begins_with_http (String_trim s)
          then Some (String_trim s) else None
      | _ \<Rightarrow> None)"
proof (cases v)
  case (JString s)
  have p: "isPlaceholderCredential (String_trim s) \<longleftrightarrow> placeholder_in_words (String_trim s)"
    by (rule isPlaceholderCredential_trimmed) (rule trim_idem)
  show ?thesis
    unfolding JString normalizeHttpUrl_def js_value.case Let_def length_0_conv p http_prefix
    by auto
qed (simp_all add: normalizeHttpUrl_def)

theorem normalizeHttpUrl_spec_witness:
  "normalizeHttpUrl (JString '' https://api.openai.com '') = Some ''https://api.openai.com'' \<and>
   \<not> placeholder_in_words ''https://api.openai.com'' \<and>
   begins_with_http ''https://api.openai.com''"
proof -
  have t: "String_trim '' https://api.openai.com '' = ''https://api.openai.com''" by code_simp
  have v: "normalizeHttpUrl (JString '' https://api.openai.com '') = Some ''https://api.openai.com''"
    by code_simp
  have "\<not> placeholder_in_words ''https://api.openai.com'' \<and>
        begins_with_http ''https://api.openai.com''"
    using normalizeHttpUrl_spec [of "JString '' https://api.openai.com ''"] v
    unfolding t js_value.case by (simp split: if_splits)
  with v show ?thesis by simp
qed

section \<open>Properties of the interactive step runner\<close>

lemma emit_fields:
  "dispatched (emit env e r) = dispatched r @ [e]"
  "executed (emit env e r) = executed r"
  by (simp_all add: emit_def)

lemma bufferStreamChunk_fields:
  "dispatched (bufferStreamChunk env ty i d out r) = dispatched r"
  "executed (bufferStreamChunk env ty i d out r) = executed r"
  by (simp_all add: bufferStreamChunk_def scheduleStreamFlush_def Let_def)

lemma foldl_emit_executed:
  "executed (foldl (\<lambda>acc event. emit env event acc) r es) = executed r"
  by (induction es arbitrary: r) (simp_all add: emit_fields)

lemma flushStreamBuffer_executed: "executed (flushStreamBuffer env r) = executed r"
  by (simp add: flushStreamBuffer_def Let_def foldl_emit_executed)

lemma during_step_executed: "executed (during_step env i d cb r) = executed r"
  by (cases cb) (simp_all add: bufferStreamChunk_fields flushStreamBuffer_executed)

lemma foldl_during_step_executed:
  "executed (foldl (\<lambda>acc cb. during_step env i d cb acc) r cbs) = executed r"
  by (induction cbs arbitrary: r) (simp_all add: during_step_executed)

lemma run_step_executed:
  "executed (snd (run_step env steps i r)) = executed r @ [steps ! i]"
  by (simp add: run_step_def Let_def emit_fields flushStreamBuffer_executed
      foldl_during_step_executed split: prod.splits execution.splits)

lemma run_step_continues:
  "fst (run_step env steps i r) = None \<longleftrightarrow>
     (case snd (executeStep env (length (executed r)) (steps ! i)) of
        Resolves result \<Rightarrow> res_exitCode result = 0
      | Rejects err \<Rightarrow> False)"
  by (simp add: run_step_def Let_def emit_fields split: prod.splits execution.splits)

lemma run_step_failure:
  assumes "run_step env steps i r = (Some res, r')"
  shows "status res = status_error \<and> failedStepIndex res = Some i \<and> dispatched r' \<noteq> [] \<and>
         ev_type (last (dispatched r')) = error \<and> ev_stepIndex (last (dispatched r')) = Some i"
  using assms
  by (auto simp add: run_step_def Let_def emit_fields blank_event_def
      split: prod.splits execution.splits if_splits)


lemma run_step_fails_iff:
  assumes "executed r = take i steps" "i < length steps"
  shows "fst (run_step env steps i r) = None \<longleftrightarrow> \<not> step_fails env steps i"
proof -
  from assms have "length (executed r) = i" by simp
  then show ?thesis
    by (simp add: run_step_continues step_fails_def split: execution.splits)
qed

lemma run_step_invariant:
  assumes "executed r = take i steps" "i < length steps"
  shows "executed (snd (run_step env steps i r)) = take (Suc i) steps"
  using assms by (simp add: run_step_executed take_Suc_conv_app_nth)

lemma run_from_stops:
  assumes "executed r = take index steps" "index \<le> i" "i < length steps"
    "step_fails env steps i" "\<forall>j. index \<le> j \<and> j < i \<longrightarrow> \<not> step_fails env steps j"
  shows "status (fst (run_from env steps index r)) = status_error \<and>
         failedStepIndex (fst (run_from env steps index r)) = Some i \<and>
         executed (snd (run_from env steps index r)) = take (Suc i) steps \<and>
         dispatched (snd (run_from env steps index r)) \<noteq> [] \<and>
         ev_type (last (dispatched (snd (run_from env steps index r)))) = error \<and>
         ev_stepIndex (last (dispatched (snd (run_from env steps index r)))) = Some i"
  using assms
proof (induction env steps index r rule: run_from.induct)
  case (1 env steps index r)
  from "1.prems" have lt: "index < length steps" by simp
  obtain res r' where rs: "run_step env steps index r = (res, r')" by (cases "run_step env steps index r")
  have inv: "executed r' = take (Suc index) steps"
    using run_step_invariant [OF "1.prems"(1) lt, of env] rs by simp
  have cont: "res = None \<longleftrightarrow> \<not> step_fails env steps index"
    using run_step_fails_iff [OF "1.prems"(1) lt, of env] rs by simp
  show ?case
  proof (cases "index = i")
    case True
    with cont "1.prems"(4) obtain x where x: "res = Some x" by (cases res) auto
    have R: "run_from env steps index r = (x, r')"
      using lt rs x by (simp del: run_from.simps add: run_from.simps [of env steps index r])
    from run_step_failure [of env steps index r x r'] rs x
    have "status x = status_error \<and> failedStepIndex x = Some index \<and> dispatched r' \<noteq> [] \<and>
         ev_type (last (dispatched r')) = error \<and> ev_stepIndex (last (dispatched r')) = Some index"
      by simp
    with R inv True show ?thesis by simp
  next
    case False
    with "1.prems" have lt': "Suc index \<le> i" "\<not> step_fails env steps index" by auto
    with cont have n: "res = None" by simp
    have R: "run_from env steps index r = run_from env steps (Suc index) r'"
      using lt rs n by (simp del: run_from.simps add: run_from.simps [of env steps index r])
    have "\<forall>j. Suc index \<le> j \<and> j < i \<longrightarrow> \<not> step_fails env steps j"
      using "1.prems"(5) by auto
    from "1.IH" [OF lt rs [symmetric] n inv lt'(1) "1.prems"(3) "1.prems"(4) this]
    show ?thesis unfolding R .
  qed
qed

lemma flushStreamBuffer_other:
  "dispatched (emit env e (flushStreamBuffer env r\<lparr>dates := d\<rparr>)) \<noteq> []"
  by (simp add: emit_def)

lemma run_from_completes:
  assumes "executed r = take index steps" "index \<le> length steps"
    "\<forall>j. index \<le> j \<and> j < length steps \<longrightarrow> \<not> step_fails env steps j"
  shows "status (fst (run_from env steps index r)) = status_complete \<and>
         executed (snd (run_from env steps index r)) = steps \<and>
         dispatched (snd (run_from env steps index r)) \<noteq> [] \<and>
         ev_type (last (dispatched (snd (run_from env steps index r)))) = complete"
  using assms
proof (induction env steps index r rule: run_from.induct)
  case (1 env steps index r)
  show ?case
  proof (cases "index < length steps")
    case lt: True
    obtain res r' where rs: "run_step env steps index r = (res, r')" by (cases "run_step env steps index r")
    have inv: "executed r' = take (Suc index) steps"
      using run_step_invariant [OF "1.prems"(1) lt, of env] rs by simp
    have "res = None \<longleftrightarrow> \<not> step_fails env steps index"
      using run_step_fails_iff [OF "1.prems"(1) lt, of env] rs by simp
    with "1.prems"(3) lt have n: "res = None" by simp
    have R: "run_from env steps index r = run_from env steps (Suc index) r'"
      using lt rs n by (simp del: run_from.simps add: run_from.simps [of env steps index r])
    have "\<forall>j. Suc index \<le> j \<and> j < length steps \<longrightarrow> \<not> step_fails env steps j"
      using "1.prems"(3) by auto
    moreover from lt have "Suc index \<le> length steps" by simp
    ultimately show ?thesis
      using "1.IH" [OF lt rs [symmetric] n inv] unfolding R by blast
  next
    case False
    with "1.prems" have "executed r = steps" by simp
    with False show ?thesis
      by (simp del: run_from.simps add: run_from.simps [of env steps index r] Let_def emit_fields
          flushStreamBuffer_executed blank_event_def)
  qed
qed

text \<open>
  Claim C9. For every list of steps, \<^verbatim>\<open>InteractiveStepRunner.run\<close> executes the steps
  in order and stops at the first step whose executor returns a non-zero exit code or
  throws: the steps handed to the executor are exactly those up to and including that
  step, the last event emitted is an \<^verbatim>\<open>error\<close> event for it, and the result is
  \<^verbatim>\<open>{status: 'error', failedStepIndex}\<close> with that step's index. If the executor
  returns exit code 0 for every step, all steps are executed, the result is
  \<^verbatim>\<open>{status: 'complete'}\<close> and the last event emitted is the \<^verbatim>\<open>complete\<close> event.
\<close>

theorem run_stops_at_first_failure:
  "(\<forall>i < length steps.
      step_fails env steps i \<and> (\<forall>j < i. \<not> step_fails env steps j) \<longrightarrow>
        status (fst (run env steps)) = status_error \<and>
        failedStepIndex (fst (run env steps)) = Some i \<and>
        executed (snd (run env steps)) = take (Suc i) steps \<and>
        dispatched (snd (run env steps)) \<noteq> [] \<and>
        ev_type (last (dispatched (snd (run env steps)))) = error \<and>
        ev_stepIndex (last (dispatched (snd (run env steps)))) = Some i) \<and>
   ((\<forall>i < length steps. \<not> step_fails env steps i) \<longrightarrow>
        status (fst (run env steps)) = status_complete \<and>
        executed (snd (run env steps)) = steps \<and>
        dispatched (snd (run env steps)) \<noteq> [] \<and>
        ev_type (last (dispatched (snd (run env steps)))) = complete)"
proof (intro conjI allI impI)
  fix i assume i: "i < length steps"
    and f: "step_fails env steps i \<and> (\<forall>j < i. \<not> step_fails env steps j)"
  have e: "executed new_runner = take 0 steps" by (simp add: new_runner_def)
  from f have "\<forall>j. 0 \<le> j \<and> j < i \<longrightarrow> \<not> step_fails env steps j" by simp
  from run_from_stops [OF e _ i _ this] f
  have *: "status (fst (run env steps)) = status_error \<and>
        failedStepIndex (fst (run env steps)) = Some i \<and>
        executed (snd (run env steps)) = take (Suc i) steps \<and>
        dispatched (snd (run env steps)) \<noteq> [] \<and>
        ev_type (last (dispatched (snd (run env steps)))) = error \<and>
        ev_stepIndex (last (dispatched (snd (run env steps)))) = Some i"
    unfolding run_def by simp
  from * show "status (fst (run env steps)) = status_error" by simp
  from * show "failedStepIndex (fst (run env steps)) = Some i" by simp
  from * show "executed (snd (run env steps)) = take (Suc i) steps" by simp
  from * show "dispatched (snd (run env steps)) \<noteq> []" by simp
  from * show "ev_type (last (dispatched (snd (run env steps)))) = error" by simp
  from * show "ev_stepIndex (last (dispatched (snd (run env steps)))) = Some i" by simp
next
  assume a: "\<forall>i < length steps. \<not> step_fails env steps i"
  have e: "executed new_runner = take 0 steps" by (simp add: new_runner_def)
  from a have "\<forall>j. 0 \<le> j \<and> j < length steps \<longrightarrow> \<not> step_fails env steps j" by simp
  from run_from_completes [OF e _ this]
  have *: "status (fst (run env steps)) = status_complete \<and>
        executed (snd (run env steps)) = steps \<and>
        dispatched (snd (run env steps)) \<noteq> [] \<and>
        ev_type (last (dispatched (snd (run env steps)))) = complete"
    unfolding run_def by simp
  from * show "status (fst (run env steps)) = status_complete" by simp
  from * show "executed (snd (run env steps)) = steps" by simp
  from * show "dispatched (snd (run env steps)) \<noteq> []" by simp
  from * show "ev_type (last (dispatched (snd (run env steps)))) = complete" by simp
qed

theorem run_stops_at_first_failure_witness:
  "step_fails witness_env witness_steps 1 \<and> \<not> step_fails witness_env witness_steps 0 \<and>
   status (fst (run witness_env witness_steps)) = status_error \<and>
   failedStepIndex (fst (run witness_env witness_steps)) = Some 1 \<and>
   executed (snd (run witness_env witness_steps)) = take 2 witness_steps \<and>
   \<not> step_fails witness_env (take 1 witness_steps) 0 \<and>
   status (fst (run witness_env (take 1 witness_steps))) = status_complete \<and>
   ev_type (last (dispatched (snd (run witness_env (take 1 witness_steps))))) = complete"
proof -
  have f1: "step_fails witness_env witness_steps 1" by code_simp
  have f0: "\<not> step_fails witness_env witness_steps 0" by code_simp
  have l: "(1::nat) < length witness_steps" by code_simp
  from f0 have "\<forall>j < (1::nat). \<not> step_fails witness_env witness_steps j" by simp
  with f1 l run_stops_at_first_failure [of witness_steps witness_env]
  have a: "status (fst (run witness_env witness_steps)) = status_error \<and>
     failedStepIndex (fst (run witness_env witness_steps)) = Some 1 \<and>
     executed (snd (run witness_env witness_steps)) = take (Suc 1) witness_steps"
    by blast
  have g0: "\<not> step_fails witness_env (take 1 witness_steps) 0" by code_simp
  have "length (take 1 witness_steps) = 1" by code_simp
  with g0 have "\<forall>i < length (take 1 witness_steps). \<not> step_fails witness_env (take 1 witness_steps) i"
    by simp
  with run_stops_at_first_failure [of "take 1 witness_steps" witness_env]
  have b: "status (fst (run witness_env (take 1 witness_steps))) = status_complete \<and>
     ev_type (last (dispatched (snd (run witness_env (take 1 witness_steps))))) = complete"
    by blast
  from f1 f0 a g0 b show ?thesis by (simp add: numeral_2_eq_2)
qed

section \<open>Properties of the stream timeout and of the error response\<close>

text \<open>
  Claim C5. The effective stream timeout is a finite number of at least 30000 ms. When
  \<^verbatim>\<open>BOLT_STREAM_TIMEOUT_MS\<close> (the first non-empty value of the runtime environment and
  \<^verbatim>\<open>process.env\<close>) converts to a finite number of at least 30000, that number is the
  timeout; otherwise the timeout is the default derived from the model, 300000 ms when the
  selected model name matches \<^verbatim>\<open>LONG_THINK_MODEL_RE\<close> and 180000 ms otherwise.
\<close>

theorem streamTimeoutMs_floor:
  "(\<exists>ms. streamTimeoutMs Number m e p = Finite ms \<and> 30000 \<le> ms) \<and>
   (\<forall>str v. first_truthy e p = Some str \<and> Number str = Finite v \<and> 30000 \<le> v \<longrightarrow>
        streamTimeoutMs Number m e p = Finite v) \<and>
   (\<not> (\<exists>str v. first_truthy e p = Some str \<and> Number str = Finite v \<and> 30000 \<le> v) \<longrightarrow>
        streamTimeoutMs Number m e p =
          Finite (if LONG_THINK_MODEL_RE_test (case m of None \<Rightarrow> [] | Some x \<Rightarrow> x)
                  then 300000 else 180000))"
proof (intro conjI allI impI)
  have d: "30000 \<le> dynamicStreamTimeoutFallbackMs m"
    by (simp add: dynamicStreamTimeoutFallbackMs_def Let_def)
  show "\<exists>ms. streamTimeoutMs Number m e p = Finite ms \<and> 30000 \<le> ms"
    using d
    by (cases "configuredStreamTimeoutMs Number m e p")
      (auto simp: streamTimeoutMs_def Let_def Number_isFinite_def js_ge_def)
next
  fix str v
  assume "first_truthy e p = Some str \<and> Number str = Finite v \<and> 30000 \<le> v"
  then show "streamTimeoutMs Number m e p = Finite v"
    by (simp add: streamTimeoutMs_def configuredStreamTimeoutMs_def Let_def Number_isFinite_def
        js_ge_def)
next
  assume n: "\<not> (\<exists>str v. first_truthy e p = Some str \<and> Number str = Finite v \<and> 30000 \<le> v)"
  have d: "30000 \<le> dynamicStreamTimeoutFallbackMs m"
    by (simp add: dynamicStreamTimeoutFallbackMs_def Let_def)
  have f: "dynamicStreamTimeoutFallbackMs m =
      (if LONG_THINK_MODEL_RE_test (case m of None \<Rightarrow> [] | Some x \<Rightarrow> x) then 300000 else 180000)"
    by (simp add: dynamicStreamTimeoutFallbackMs_def Let_def)
  show "streamTimeoutMs Number m e p =
      Finite (if LONG_THINK_MODEL_RE_test (case m of None \<Rightarrow> [] | Some x \<Rightarrow> x)
              then 300000 else 180000)"
  proof (cases "first_truthy e p")
    case None
    then show ?thesis
      using d unfolding f [symmetric]
      by (simp add: streamTimeoutMs_def configuredStreamTimeoutMs_def Let_def Number_isFinite_def
          js_ge_def)
  next
    case (Some str)
    with n have "\<forall>v. Number str = Finite v \<longrightarrow> \<not> 30000 \<le> v" by simp
    with Some show ?thesis
      unfolding f [symmetric]
      by (cases "Number str")
        (auto simp: streamTimeoutMs_def configuredStreamTimeoutMs_def Let_def Number_isFinite_def
          js_ge_def)
  qed
qed

theorem streamTimeoutMs_floor_witness:
  "streamTimeoutMs witness_Number (Some ''gpt-5-codex'') (Some ''45000'') None = Finite 45000 \<and>
   streamTimeoutMs witness_Number (Some ''gpt-5-codex'') None (Some ''1000'') = Finite 300000 \<and>
   streamTimeoutMs witness_Number (Some ''gpt-4o'') (Some ''soon'') None = Finite 180000"
proof -
  have a: "first_truthy (Some ''45000'') None = Some ''45000'' \<and>
           witness_Number ''45000'' = Finite 45000 \<and> (30000::real) \<le> 45000"
    by (simp add: first_truthy_def witness_Number_def)
  have 1: "streamTimeoutMs witness_Number (Some ''gpt-5-codex'') (Some ''45000'') None = Finite 45000"
    using streamTimeoutMs_floor [of witness_Number "Some ''gpt-5-codex''" "Some ''45000''" None] a
    by blast
  have b: "\<not> (\<exists>str v. first_truthy None (Some ''1000'') = Some str \<and>
              witness_Number str = Finite v \<and> 30000 \<le> v)"
    by (simp add: first_truthy_def witness_Number_def)
  have l: "LONG_THINK_MODEL_RE_test ''gpt-5-codex''" by code_simp
  have 2: "streamTimeoutMs witness_Number (Some ''gpt-5-codex'') None (Some ''1000'') = Finite 300000"
    using streamTimeoutMs_floor [of witness_Number "Some ''gpt-5-codex''" None "Some ''1000''"] b l
    by simp
  have c: "\<not> (\<exists>str v. first_truthy (Some ''soon'') None = Some str \<and>
              witness_Number str = Finite v \<and> 30000 \<le> v)"
    by (simp add: first_truthy_def witness_Number_def)
  have k: "\<not> LONG_THINK_MODEL_RE_test ''gpt-4o''" by code_simp
  have 3: "streamTimeoutMs witness_Number (Some ''gpt-4o'') (Some ''soon'') None = Finite 180000"
    using streamTimeoutMs_floor [of witness_Number "Some ''gpt-4o''" "Some ''soon''" None] c k
    by simp
  from 1 2 3 show ?thesis by simp
qed









section \<open>Invariants of a Run\<close>

lemma commentary_orders_append:
  "commentary_orders (xs @ ys) = commentary_orders xs @ commentary_orders ys"
  by (induction xs rule: commentary_orders.induct) simp_all

lemma writeData_obs:
  "written (writeData e s) = written s @ [e]"
  "progressCounter (writeData e s) = progressCounter s"
  "completionEmitted (writeData e s) = completionEmitted s"
  "runContinuationAttempts (writeData e s) = runContinuationAttempts s"
  "forcedRunRecoveryAttempted (writeData e s) = forcedRunRecoveryAttempted s"
  "issued (writeData e s) = issued s"
  "stream_switches (writeData e s) = stream_switches s"
  "processedMessages (writeData e s) = processedMessages s"
  by (simp_all add: writeData_def)

lemma stopCommentaryHeartbeat_obs:
  "written (stopCommentaryHeartbeat s) = written s"
  "progressCounter (stopCommentaryHeartbeat s) = progressCounter s"
  "completionEmitted (stopCommentaryHeartbeat s) = completionEmitted s"
  "runContinuationAttempts (stopCommentaryHeartbeat s) = runContinuationAttempts s"
  "forcedRunRecoveryAttempted (stopCommentaryHeartbeat s) = forcedRunRecoveryAttempted s"
  "issued (stopCommentaryHeartbeat s) = issued s"
  "stream_switches (stopCommentaryHeartbeat s) = stream_switches s"
  "processedMessages (stopCommentaryHeartbeat s) = processedMessages s"
  by (simp_all add: stopCommentaryHeartbeat_def)

lemma startCommentaryHeartbeat_obs:
  "written (startCommentaryHeartbeat s) = written s"
  "progressCounter (startCommentaryHeartbeat s) = progressCounter s"
  "completionEmitted (startCommentaryHeartbeat s) = completionEmitted s"
  "runContinuationAttempts (startCommentaryHeartbeat s) = runContinuationAttempts s"
  "forcedRunRecoveryAttempted (startCommentaryHeartbeat s) = forcedRunRecoveryAttempted s"
  "issued (startCommentaryHeartbeat s) = issued s"
  "stream_switches (startCommentaryHeartbeat s) = stream_switches s"
  "processedMessages (startCommentaryHeartbeat s) = processedMessages s"
  by (simp_all add: startCommentaryHeartbeat_def)

lemma stopRunMonitors_obs:
  "written (stopRunMonitors s) = written s"
  "progressCounter (stopRunMonitors s) = progressCounter s"
  "completionEmitted (stopRunMonitors s) = completionEmitted s"
  "runContinuationAttempts (stopRunMonitors s) = runContinuationAttempts s"
  "forcedRunRecoveryAttempted (stopRunMonitors s) = forcedRunRecoveryAttempted s"
  "issued (stopRunMonitors s) = issued s"
  "stream_switches (stopRunMonitors s) = stream_switches s"
  "processedMessages (stopRunMonitors s) = processedMessages s"
  by (simp_all add: stopRunMonitors_def stopCommentaryHeartbeat_def)

lemma merge_signal_obs:
  "written (merge_signal signal s) = written s"
  "progressCounter (merge_signal signal s) = progressCounter s"
  "completionEmitted (merge_signal signal s) = completionEmitted s"
  "runContinuationAttempts (merge_signal signal s) = runContinuationAttempts s"
  "forcedRunRecoveryAttempted (merge_signal signal s) = forcedRunRecoveryAttempted s"
  "issued (merge_signal signal s) = issued s"
  "stream_switches (merge_signal signal s) = stream_switches s"
  "processedMessages (merge_signal signal s) = processedMessages s"
  by (simp_all add: merge_signal_def)

lemma push_message_obs:
  "written (push_message env r content s) = written s"
  "progressCounter (push_message env r content s) = progressCounter s"
  "completionEmitted (push_message env r content s) = completionEmitted s"
  "runContinuationAttempts (push_message env r content s) = runContinuationAttempts s"
  "forcedRunRecoveryAttempted (push_message env r content s) = forcedRunRecoveryAttempted s"
  "issued (push_message env r content s) = issued s"
  "stream_switches (push_message env r content s) = stream_switches s"
  "processedMessages (push_message env r content s) =
     processedMessages s @
       [\<lparr>msg_id = generateId env (generatedIds s), msg_role = r, msg_content = content\<rparr>]"
  by (simp_all add: push_message_def)

lemma streamText_obs:
  "written (streamText kind s) = written s"
  "progressCounter (streamText kind s) = progressCounter s"
  "completionEmitted (streamText kind s) = completionEmitted s"
  "runContinuationAttempts (streamText kind s) = runContinuationAttempts s"
  "forcedRunRecoveryAttempted (streamText kind s) = forcedRunRecoveryAttempted s"
  "issued (streamText kind s) =
     issued s @ [\<lparr>seg_kind = kind, seg_messages = processedMessages s\<rparr>]"
  "stream_switches (streamText kind s) = stream_switches s"
  "processedMessages (streamText kind s) = processedMessages s"
  by (simp_all add: streamText_def createStreamAbortSignal_def)

lemma writeCommentary_obs:
  "progressCounter (writeCommentary env now phase msg st detail s) =
     Suc (progressCounter s)"
  "completionEmitted (writeCommentary env now phase msg st detail s) = completionEmitted s"
  "runContinuationAttempts (writeCommentary env now phase msg st detail s) =
     runContinuationAttempts s"
  "forcedRunRecoveryAttempted (writeCommentary env now phase msg st detail s) =
     forcedRunRecoveryAttempted s"
  "issued (writeCommentary env now phase msg st detail s) = issued s"
  "stream_switches (writeCommentary env now phase msg st detail s) = stream_switches s"
  "processedMessages (writeCommentary env now phase msg st detail s) = processedMessages s"
  by (simp_all add: writeCommentary_def Let_def writeData_def)

lemma emitRunCompletionEvents_obs:
  "progressCounter (emitRunCompletionEvents env now t m p s) =
     (if completionEmitted s then progressCounter s else Suc (progressCounter s))"
  "completionEmitted (emitRunCompletionEvents env now t m p s) = True"
  "runContinuationAttempts (emitRunCompletionEvents env now t m p s) =
     runContinuationAttempts s"
  "forcedRunRecoveryAttempted (emitRunCompletionEvents env now t m p s) =
     forcedRunRecoveryAttempted s"
  "issued (emitRunCompletionEvents env now t m p s) = issued s"
  "stream_switches (emitRunCompletionEvents env now t m p s) = stream_switches s"
  "processedMessages (emitRunCompletionEvents env now t m p s) = processedMessages s"
  by (simp_all add: emitRunCompletionEvents_def Let_def writeData_def stopCommentaryHeartbeat_def)

lemma writeCommentary_written:
  "commentary_orders (written (writeCommentary env now phase msg st detail s)) =
     commentary_orders (written s) @ [progressCounter s]"
  "filter is_completion_event (written (writeCommentary env now phase msg st detail s)) =
     filter is_completion_event (written s)"
  by (simp_all add: writeCommentary_def Let_def writeData_def commentary_orders_append
      is_completion_event_def)

lemma emitRunCompletionEvents_orders:
  "commentary_orders (written (emitRunCompletionEvents env now t m p s)) =
     commentary_orders (written s)"
  by (simp add: emitRunCompletionEvents_def Let_def writeData_def stopCommentaryHeartbeat_def
      commentary_orders_append)

lemma emitRunCompletionEvents_noop:
  "completionEmitted s \<Longrightarrow> emitRunCompletionEvents env now t m p s = s"
  by (simp add: emitRunCompletionEvents_def)

lemma emitRunCompletionEvents_batch:
  assumes "\<not> completionEmitted s"
  shows "\<exists>batch. filter is_completion_event (written (emitRunCompletionEvents env now t m p s)) =
           filter is_completion_event (written s) @ batch \<and> is_completion_batch batch"
  using assms
  by (simp add: emitRunCompletionEvents_def Let_def writeData_def
      is_completion_event_def is_completion_batch_def stopCommentaryHeartbeat_def)

lemmas prim_obs = writeData_obs stopCommentaryHeartbeat_obs startCommentaryHeartbeat_obs
  stopRunMonitors_obs merge_signal_obs push_message_obs streamText_obs writeCommentary_obs
  writeCommentary_written emitRunCompletionEvents_obs emitRunCompletionEvents_orders



lemmas inv_defs = keeps_invariants_def ordered_def completion_inv_def forced_inv_def
  emitted_orders_def completion_events_def forced_recovery_turns_def

lemma keeps_invariants_refl: "keeps_invariants s s"
  by (simp add: keeps_invariants_def)

lemma keeps_invariants_trans:
  "keeps_invariants s t \<Longrightarrow> keeps_invariants t u \<Longrightarrow> keeps_invariants s u"
  by (simp add: keeps_invariants_def)



lemma keeps_obs:
  assumes k: "keeps_invariants s0 s"
    and o: "commentary_orders (written s') = commentary_orders (written s) @ ks"
      "ks = [] \<and> progressCounter s \<le> progressCounter s' \<or>
       ks = [progressCounter s] \<and> progressCounter s < progressCounter s'"
    and c: "filter is_completion_event (written s') = filter is_completion_event (written s)"
      "completionEmitted s' = completionEmitted s"
    and a: "runContinuationAttempts s' \<le> runContinuationAttempts s"
    and f: "filter (\<lambda>g. seg_kind g = seg_forced_recovery) (issued s') =
            filter (\<lambda>g. seg_kind g = seg_forced_recovery) (issued s)"
      "forcedRunRecoveryAttempted s' = forcedRunRecoveryAttempted s"
    and w: "stream_switches s' = stream_switches s"
  shows "keeps_invariants s0 s'"
proof -
  have 1: "ordered s \<Longrightarrow> ordered s'"
    using o unfolding ordered_def emitted_orders_def by (auto simp: sorted_wrt_append)
  have 2: "completion_inv s' = completion_inv s" "completion_events s' = completion_events s"
    by (simp_all add: completion_inv_def completion_events_def c)
  have 3: "forced_inv s' = forced_inv s"
    by (simp add: forced_inv_def forced_recovery_turns_def f)
  show ?thesis
    using k 1 a unfolding keeps_invariants_def 2 3 c w by auto
qed

lemma keeps_update:
  "keeps_invariants s0 s \<Longrightarrow> keeps_invariants s0 (cumulativeUsage_update f1 s)"
  "keeps_invariants s0 s \<Longrightarrow> keeps_invariants s0 (forceFinalizeAttempted_update f2 s)"
  "keeps_invariants s0 s \<Longrightarrow> keeps_invariants s0 (awaitingBackoff_update f3 s)"
  "keeps_invariants s0 s \<Longrightarrow> keeps_invariants s0 (finalizeSegment_update f4 s)"
  "keeps_invariants s0 s \<Longrightarrow> keeps_invariants s0 (recoverySucceeded_update f5 s)"
  "keeps_invariants s0 s \<Longrightarrow> keeps_invariants s0 (pendingRecoveryReason_update f6 s)"
  "keeps_invariants s0 s \<Longrightarrow> keeps_invariants s0 (pendingRecoveryBackoffMs_update f7 s)"
  "keeps_invariants s0 s \<Longrightarrow> keeps_invariants s0 (forceFinalizeRequested_update f8 s)"
  "keeps_invariants s0 s \<Longrightarrow> keeps_invariants s0 (hasExecutionFailures_update f9 s)"
  "keeps_invariants s0 s \<Longrightarrow> keeps_invariants s0 (latestExecutionFailure_update f10 s)"
  "keeps_invariants s0 s \<Longrightarrow> keeps_invariants s0 (recoveryTriggered_update f11 s)"
  "keeps_invariants s0 s \<Longrightarrow> keeps_invariants s0 (collectedToolOutputs_update f12 s)"
  "keeps_invariants s0 s \<Longrightarrow> keeps_invariants s0 (summary_update f13 s)"
  "keeps_invariants s0 s \<Longrightarrow> keeps_invariants s0 (activeStreamAbortController_update f14 s)"
  "keeps_invariants s0 s \<Longrightarrow> keeps_invariants s0 (firstCommentaryAt_update f15 s)"
  "keeps_invariants s0 s \<Longrightarrow> keeps_invariants s0 (lastCommentaryPhase_update f16 s)"
  "keeps_invariants s0 s \<Longrightarrow> keeps_invariants s0 (commentaryHeartbeat_update f17 s)"
  "keeps_invariants s0 s \<Longrightarrow> keeps_invariants s0 (streamRecoveryMonitoring_update f18 s)"
  "keeps_invariants s0 s \<Longrightarrow> keeps_invariants s0 (generatedIds_update f19 s)"
  "keeps_invariants s0 s \<Longrightarrow> keeps_invariants s0 (processedMessages_update f20 s)"
  by ((erule keeps_obs [where ks = "[]"]; simp)+)

lemma keeps_record_usage:
  "keeps_invariants s0 s \<Longrightarrow> keeps_invariants s0 (record_usage env u s)"
  unfolding record_usage_def by (cases u) (simp_all add: keeps_update)

lemma keeps_if:
  "(c \<Longrightarrow> keeps_invariants s0 a) \<Longrightarrow> (\<not> c \<Longrightarrow> keeps_invariants s0 b) \<Longrightarrow>
   keeps_invariants s0 (if c then a else b)"
  by simp

lemma keeps_case_option:
  "(x = None \<Longrightarrow> keeps_invariants s0 a) \<Longrightarrow> (\<And>y. x = Some y \<Longrightarrow> keeps_invariants s0 (b y)) \<Longrightarrow>
   keeps_invariants s0 (case x of None \<Rightarrow> a | Some y \<Rightarrow> b y)"
  by (cases x) simp_all

lemma keeps_writeCommentary:
  "keeps_invariants s0 s \<Longrightarrow> keeps_invariants s0 (writeCommentary env now phase msg st detail s)"
  by (erule keeps_obs [where ks = "[progressCounter s]"]) (simp_all add: prim_obs)

lemma keeps_writeData:
  "keeps_invariants s0 s \<Longrightarrow> commentary_orders [e] = [] \<Longrightarrow> \<not> is_completion_event e \<Longrightarrow>
   keeps_invariants s0 (writeData e s)"
  by (erule keeps_obs [where ks = "[]"]) (simp_all add: prim_obs commentary_orders_append)

lemma keeps_progressCounter:
  "keeps_invariants s0 s \<Longrightarrow> progressCounter s \<le> n \<Longrightarrow>
   keeps_invariants s0 (progressCounter_update (\<lambda>_. n) s)"
  by (erule keeps_obs [where ks = "[]"]) simp_all

lemma keeps_runContinuationAttempts:
  assumes "keeps_invariants s0 s" "n \<le> MAX_RUN_CONTINUATION_ATTEMPTS"
  shows "keeps_invariants s0 (runContinuationAttempts_update (\<lambda>_. n) s)"
    (is "keeps_invariants s0 ?s'")
proof -
  have 1: "ordered ?s' = ordered s" by (simp add: ordered_def emitted_orders_def)
  have 2: "completion_inv ?s' = completion_inv s" "completion_events ?s' = completion_events s"
    by (simp_all add: completion_inv_def completion_events_def)
  have 3: "forced_inv ?s' = forced_inv s"
    by (simp add: forced_inv_def forced_recovery_turns_def)
  have "keeps_invariants s ?s'"
    unfolding keeps_invariants_def 1 2 3 using assms(2) by simp
  with assms(1) show ?thesis by (rule keeps_invariants_trans)
qed

lemma keeps_streamText:
  "keeps_invariants s0 s \<Longrightarrow> kind \<noteq> seg_forced_recovery \<Longrightarrow>
   keeps_invariants s0 (streamText kind s)"
  by (erule keeps_obs [where ks = "[]"]) (simp_all add: prim_obs)

lemma keeps_push_message:
  "keeps_invariants s0 s \<Longrightarrow> keeps_invariants s0 (push_message env r content s)"
  by (erule keeps_obs [where ks = "[]"]) (simp_all add: prim_obs)

lemma keeps_merge_signal:
  "keeps_invariants s0 s \<Longrightarrow> keeps_invariants s0 (merge_signal signal s)"
  by (erule keeps_obs [where ks = "[]"]) (simp_all add: prim_obs)

lemma keeps_stopRunMonitors:
  "keeps_invariants s0 s \<Longrightarrow> keeps_invariants s0 (stopRunMonitors s)"
  by (erule keeps_obs [where ks = "[]"]) (simp_all add: prim_obs)

lemma keeps_stopCommentaryHeartbeat:
  "keeps_invariants s0 s \<Longrightarrow> keeps_invariants s0 (stopCommentaryHeartbeat s)"
  by (erule keeps_obs [where ks = "[]"]) (simp_all add: prim_obs)

lemma keeps_startCommentaryHeartbeat:
  "keeps_invariants s0 s \<Longrightarrow> keeps_invariants s0 (startCommentaryHeartbeat s)"
  by (erule keeps_obs [where ks = "[]"]) (simp_all add: prim_obs)

lemma keeps_write_context_progress:
  "keeps_invariants s0 s \<Longrightarrow> keeps_invariants s0 (write_context_progress p s)"
  by (erule keeps_obs [where ks = "[]"])
    (simp_all add: write_context_progress_def prim_obs commentary_orders_append
      is_completion_event_def split: context_progress.splits)

lemma keeps_checkpoints:
  "keeps_invariants s0 s \<Longrightarrow>
   keeps_invariants s0 (foldl (\<lambda>acc event. writeData (Checkpoint event) acc) s cs)"
  by (induction cs arbitrary: s) (simp_all add: keeps_writeData is_completion_event_def)

lemma keeps_emitRunCompletionEvents:
  assumes "keeps_invariants s0 s"
  shows "keeps_invariants s0 (emitRunCompletionEvents env now t m p s)"
proof (cases "completionEmitted s")
  case True
  with assms show ?thesis by (simp add: emitRunCompletionEvents_noop)
next
  case False
  let ?s' = "emitRunCompletionEvents env now t m p s"
  from emitRunCompletionEvents_batch [OF False, of env now t m p]
  obtain batch where b: "completion_events ?s' = completion_events s @ batch"
    "is_completion_batch batch"
    unfolding completion_events_def by blast
  have 1: "ordered s \<Longrightarrow> ordered ?s'"
    unfolding ordered_def emitted_orders_def using False by (auto simp: prim_obs)
  have 2: "completion_inv s \<Longrightarrow> completion_inv ?s'"
    using False b by (simp add: completion_inv_def prim_obs)
  have 3: "forced_inv ?s' = forced_inv s"
    by (simp add: forced_inv_def forced_recovery_turns_def prim_obs)
  have "keeps_invariants s ?s'"
    unfolding keeps_invariants_def 3 using 1 2 False by (simp add: prim_obs)
  with assms show ?thesis by (rule keeps_invariants_trans)
qed

lemma keeps_forced_recovery:
  assumes "keeps_invariants s0 s" "\<not> forcedRunRecoveryAttempted s"
  shows "keeps_invariants s0
     (streamText seg_forced_recovery
        (push_message env r2 c2
           (push_message env r1 c1
              (writeCommentary env now phase msg st detail
                 (s\<lparr>forcedRunRecoveryAttempted := True\<rparr>)))))"
    (is "keeps_invariants s0 ?s'")
proof -
  have 1: "ordered s \<Longrightarrow> ordered ?s'"
    unfolding ordered_def emitted_orders_def by (auto simp: prim_obs sorted_wrt_append)
  have 2: "completion_inv ?s' = completion_inv s" "completion_events ?s' = completion_events s"
    by (simp_all add: completion_inv_def completion_events_def prim_obs)
  have 3: "forced_inv s \<Longrightarrow> forced_inv ?s'"
    using assms(2) by (simp add: forced_inv_def forced_recovery_turns_def prim_obs)
  have "keeps_invariants s ?s'"
    unfolding keeps_invariants_def 2 using 1 3 by (simp add: prim_obs)
  with assms(1) show ?thesis by (rule keeps_invariants_trans)
qed

lemma keeps_snd_if:
  "(c \<Longrightarrow> keeps_invariants s0 (snd a)) \<Longrightarrow> (\<not> c \<Longrightarrow> keeps_invariants s0 (snd b)) \<Longrightarrow>
   keeps_invariants s0 (snd (if c then a else b))"
  by simp

lemma keeps_snd_pair: "keeps_invariants s0 x \<Longrightarrow> keeps_invariants s0 (snd (e, x))"
  by simp

lemmas keeps_rules = keeps_snd_if keeps_snd_pair keeps_if keeps_case_option keeps_forced_recovery
  keeps_writeCommentary keeps_streamText keeps_writeData keeps_progressCounter
  keeps_runContinuationAttempts
  keeps_push_message keeps_merge_signal keeps_stopRunMonitors keeps_startCommentaryHeartbeat
  keeps_write_context_progress keeps_checkpoints keeps_emitRunCompletionEvents keeps_update
  keeps_record_usage
  keeps_invariants_refl

lemma heartbeat_tick_keeps: "keeps_invariants s (heartbeat_tick env now s)"
  unfolding heartbeat_tick_def Let_def by (intro keeps_rules)

lemma onTimeout_keeps: "keeps_invariants s (onTimeout env now signal s)"
  unfolding onTimeout_def Let_def by (intro keeps_rules)

lemma onStepFinish_keeps: "keeps_invariants s (onStepFinish env now step s)"
  unfolding onStepFinish_def Let_def by (intro keeps_rules)


lemma start_execution_keeps: "keeps_invariants s (start_execution env now s)"
  unfolding start_execution_def Let_def
  by (intro keeps_rules) (simp_all add: prim_obs is_completion_event_def)

lemma keeps_complete_run:
  "keeps_invariants s0 s \<Longrightarrow> keeps_invariants s0 (complete_run env now content model provider s)"
  unfolding complete_run_def Let_def by (intro keeps_rules)

lemma keeps_begin_finalize:
  "keeps_invariants s0 s \<Longrightarrow> keeps_invariants s0 (begin_finalize env now c s)"
  unfolding begin_finalize_def Let_def by (intro keeps_rules) simp_all

lemma backoff_elapsed_keeps: "keeps_invariants s (backoff_elapsed env now s)"
  unfolding backoff_elapsed_def by (intro keeps_rules keeps_begin_finalize)

lemma finalize_onFinish_keeps: "keeps_invariants s (finalize_onFinish env now finalContent u s)"
  unfolding finalize_onFinish_def Let_def by (intro keeps_rules keeps_complete_run)

lemma onFinish_keeps: "keeps_invariants s (snd (onFinish env now content finishReason u s))"
  unfolding onFinish_def Let_def
  by (intro keeps_rules keeps_complete_run keeps_begin_finalize)
    (simp_all add: MAX_RUN_CONTINUATION_ATTEMPTS_def)

lemma handle_keeps: "keeps_invariants s (snd (handle env e s))"
  by (cases e)
    (simp_all add: keeps_invariants_refl heartbeat_tick_keeps onTimeout_keeps onStepFinish_keeps
      start_execution_keeps backoff_elapsed_keeps finalize_onFinish_keeps onFinish_keeps
      keeps_writeCommentary keeps_startCommentaryHeartbeat keeps_stopCommentaryHeartbeat
      keeps_write_context_progress
      keeps_writeData keeps_update is_completion_event_def)

lemma run_events_keeps: "keeps_invariants s (snd (run_events env es s))"
proof (induction es arbitrary: s)
  case Nil
  show ?case by (simp add: keeps_invariants_refl)
next
  case (Cons e es)
  obtain r s' where h: "handle env e s = (r, s')" by (cases "handle env e s")
  have 1: "keeps_invariants s s'" using handle_keeps [of s env e] h by simp
  show ?case
  proof (cases r)
    case None
    with h have "run_events env (e # es) s = run_events env es s'" by simp
    with 1 Cons [of s'] show ?thesis by (simp add: keeps_invariants_trans)
  next
    case (Some err)
    with h 1 show ?thesis by simp
  qed
qed

lemma initial_run_invariants:
  "ordered (initial_run messages switches)"
  "completion_inv (initial_run messages switches)"
  "runContinuationAttempts (initial_run messages switches) \<le> MAX_RUN_CONTINUATION_ATTEMPTS"
  "forced_inv (initial_run messages switches)"
  by (simp_all add: initial_run_def inv_defs)


lemma record_usage_fields:
  "written (record_usage env u s) = written s"
  "progressCounter (record_usage env u s) = progressCounter s"
  "completionEmitted (record_usage env u s) = completionEmitted s"
  "runContinuationAttempts (record_usage env u s) = runContinuationAttempts s"
  "forcedRunRecoveryAttempted (record_usage env u s) = forcedRunRecoveryAttempted s"
  "forceFinalizeRequested (record_usage env u s) = forceFinalizeRequested s"
  "forceFinalizeAttempted (record_usage env u s) = forceFinalizeAttempted s"
  "pendingRecoveryBackoffMs (record_usage env u s) = pendingRecoveryBackoffMs s"
  "processedMessages (record_usage env u s) = processedMessages s"
  "issued (record_usage env u s) = issued s"
  "stream_switches (record_usage env u s) = stream_switches s"
  "generatedIds (record_usage env u s) = generatedIds s"
  by (simp_all add: record_usage_def split: option.splits)

lemma last_user_properties_record_usage:
  "last_user_properties env (record_usage env u s) = last_user_properties env s"
  by (simp add: last_user_properties_def record_usage_fields)

lemma not_thrown_if:
  "(c \<Longrightarrow> fst a = None) \<Longrightarrow> (\<not> c \<Longrightarrow> fst b = None) \<Longrightarrow> fst (if c then a else b) = None"
  by simp

lemma not_thrown_pair: "fst (None, x) = None"
  by simp

lemma onFinish_not_thrown:
  assumes "stream_switches s < MAX_RESPONSE_SEGMENTS env"
  shows "fst (onFinish env now content finishReason u s) = None"
  unfolding onFinish_def Let_def
  using assms by (intro not_thrown_if not_thrown_pair) (simp add: record_usage_fields)

lemma handle_not_thrown:
  assumes "stream_switches s < MAX_RESPONSE_SEGMENTS env"
  shows "fst (handle env e s) = None"
  using assms by (cases e) (simp_all add: onFinish_not_thrown)

lemma stream_switches_handle: "stream_switches (snd (handle env e s)) = stream_switches s"
  using handle_keeps [of s env e] by (simp add: keeps_invariants_def)

lemma run_events_not_thrown:
  assumes "stream_switches s < MAX_RESPONSE_SEGMENTS env"
  shows "fst (run_events env es s) = None"
  using assms
proof (induction es arbitrary: s)
  case Nil
  show ?case by simp
next
  case (Cons e es)
  obtain r s' where h: "handle env e s = (r, s')" by (cases "handle env e s")
  from handle_not_thrown [OF Cons.prems, of e] h have r: "r = None" by simp
  from stream_switches_handle [of env e s] h Cons.prems
  have "stream_switches s' < MAX_RESPONSE_SEGMENTS env" by simp
  from Cons.IH [OF this] h r show ?case by simp
qed

lemma onFinish_conditions:
  "((finishReason = fr_tool_calls \<or> forceFinalizeRequested (record_usage env u s)) \<and>
      \<not> forceFinalizeAttempted (record_usage env u s)) = force_finalize_due finishReason s"
  "analyzeRunContinuation env
     \<lparr>arg_chatMode = or_else (chatMode env) ''build'',
      arg_lastUserContent = prop_content (last_user_properties env (record_usage env u s)),
      arg_assistantContent = content, arg_alreadyAttempted = False,
      arg_attemptCount = runContinuationAttempts (record_usage env u s)\<rparr> =
   run_continuation_decision env content s"
  "(shouldContinue (run_continuation_decision env content s) \<and>
      \<not> MAX_RUN_CONTINUATION_ATTEMPTS \<le> runContinuationAttempts (record_usage env u s)) =
   continuation_due env content s"
  "(shouldContinue (run_continuation_decision env content s) \<and>
      MAX_RUN_CONTINUATION_ATTEMPTS \<le> runContinuationAttempts (record_usage env u s) \<and>
      \<not> forcedRunRecoveryAttempted (record_usage env u s) \<and>
      or_else (chatMode env) ''build'' = ''build'') =
   forced_recovery_due env content s"
  by (auto simp add: force_finalize_due_def run_continuation_decision_def continuation_due_def
      forced_recovery_due_def record_usage_fields last_user_properties_record_usage)

lemma onFinish_length_continue:
  assumes "\<not> force_finalize_due fr_length s" "\<not> continuation_due env content s"
    "\<not> forced_recovery_due env content s" "stream_switches s < MAX_RESPONSE_SEGMENTS env"
  shows "onFinish env now content fr_length u s =
     (None,
      streamText seg_length_continue
        (push_message env role_user
           (continue_directive env (prop_model (last_user_properties env s))
              (prop_provider (last_user_properties env s)))
           (push_message env role_assistant content (record_usage env u s))))"
proof -
  have sw: "\<not> MAX_RESPONSE_SEGMENTS env \<le> stream_switches (record_usage env u s)"
    using assms(4) by (simp add: record_usage_fields)
  show ?thesis
    unfolding onFinish_def Let_def
    by (simp only: onFinish_conditions assms sw if_False if_True)
      (simp add: last_user_properties_record_usage)
qed




lemma onFinish_completes:
  assumes "\<not> force_finalize_due finishReason s" "\<not> continuation_due env content s"
    "\<not> forced_recovery_due env content s" "finishReason \<noteq> fr_length"
  shows "onFinish env now content finishReason u s =
     (None,
      complete_run env now content (prop_model (last_user_properties env s))
        (prop_provider (last_user_properties env s)) (record_usage env u s))"
  unfolding onFinish_def Let_def
  by (simp only: onFinish_conditions assms if_False if_True)
    (simp add: last_user_properties_record_usage)


lemma onFinish_finalize:
  assumes "force_finalize_due finishReason s" "pendingRecoveryBackoffMs s = 0"
  shows "onFinish env now content finishReason u s =
     (None,
      begin_finalize env now
        \<lparr>fc_content = content, fc_model = prop_model (last_user_properties env s),
         fc_provider = prop_provider (last_user_properties env s)\<rparr>
        ((record_usage env u s)\<lparr>forceFinalizeAttempted := True\<rparr>))"
proof -
  have b: "\<not> 0 < pendingRecoveryBackoffMs ((record_usage env u s)\<lparr>forceFinalizeAttempted := True\<rparr>)"
    using assms(2) by (simp add: record_usage_fields)
  show ?thesis
    unfolding onFinish_def Let_def
    by (simp only: onFinish_conditions assms b if_False if_True)
      (simp add: last_user_properties_record_usage)
qed

lemma complete_run_obs:
  "issued (complete_run env now content model provider s) = issued s"
  "forcedRunRecoveryAttempted (complete_run env now content model provider s) =
     forcedRunRecoveryAttempted s"
  "completionEmitted (complete_run env now content model provider s) = True"
  "processedMessages (complete_run env now content model provider s) = processedMessages s"
  by (simp_all add: complete_run_def Let_def prim_obs)

lemma reachable_invariants:
  "ordered (snd (run_events env evs (initial_run messages switches)))"
  "completion_inv (snd (run_events env evs (initial_run messages switches)))"
  "runContinuationAttempts (snd (run_events env evs (initial_run messages switches))) \<le>
     MAX_RUN_CONTINUATION_ATTEMPTS"
  "forced_inv (snd (run_events env evs (initial_run messages switches)))"
  using run_events_keeps [of "initial_run messages switches" env evs]
    initial_run_invariants [of messages switches]
  by (simp_all add: keeps_invariants_def)

text \<open>
  Claim C3. Within a Run, the order values of the commentary events that
  \<^verbatim>\<open>writeCommentary\<close> has written are strictly increasing in the order of emission, and
  no value occurs twice; this holds after every sequence of events of the Run.
\<close>

theorem commentary_order_strictly_increasing:
  "sorted_wrt (<) (emitted_orders (snd (run_events env evs (initial_run messages switches)))) \<and>
   distinct (emitted_orders (snd (run_events env evs (initial_run messages switches))))"
proof -
  have "sorted_wrt (<) (emitted_orders (snd (run_events env evs (initial_run messages switches))))"
    using reachable_invariants(1) [of env evs messages switches] by (simp add: ordered_def)
  then show ?thesis by (simp add: strict_sorted_iff)
qed

theorem commentary_order_strictly_increasing_witness:
  "emitted_orders (snd (run_events demo_env
      [Commentary 1001 phase_plan ''I am reviewing your request.'' st_in_progress None,
       StartHeartbeat, StartExecution 1002, HeartbeatTick 1500]
      (initial_run demo_messages 0))) = [1, 3, 4] \<and>
   sorted_wrt (<) [1, 3, 4 :: nat] \<and> distinct [1, 3, 4 :: nat]"
proof -
  have e: "emitted_orders (snd (run_events demo_env
      [Commentary 1001 phase_plan ''I am reviewing your request.'' st_in_progress None,
       StartHeartbeat, StartExecution 1002, HeartbeatTick 1500]
      (initial_run demo_messages 0))) = [1, 3, 4]"
    by code_simp
  from commentary_order_strictly_increasing [of demo_env
      "[Commentary 1001 phase_plan ''I am reviewing your request.'' st_in_progress None,
        StartHeartbeat, StartExecution 1002, HeartbeatTick 1500]" demo_messages 0]
  show ?thesis unfolding e by (simp add: e)
qed


lemma completes_run_emits:
  assumes "completes_run env e s"
  shows "completionEmitted (snd (handle env e s))"
proof (cases e)
  case (Finished now content finishReason u)
  with assms have c: "\<not> force_finalize_due finishReason s" "\<not> continuation_due env content s"
    "\<not> forced_recovery_due env content s" "finishReason \<noteq> fr_length"
    by (simp_all add: completes_run_def)
  show ?thesis
    unfolding Finished handle.simps onFinish_completes [OF c]
    by (simp add: complete_run_obs)
next
  case (FinalizeFinished now finalContent u)
  with assms obtain c where "finalizeSegment s = Some c"
    by (auto simp: completes_run_def)
  then show ?thesis
    unfolding FinalizeFinished handle.simps finalize_onFinish_def
    by (simp add: complete_run_obs)
qed (use assms in \<open>simp_all add: completes_run_def\<close>)

lemma begin_finalize_fields:
  "finalizeSegment (begin_finalize env now c s) = Some c"
  by (simp add: begin_finalize_def Let_def streamText_def createStreamAbortSignal_def
      push_message_def writeCommentary_def writeData_def)

lemma onFinish_pauses:
  assumes "force_finalize_due finishReason s" "0 < pendingRecoveryBackoffMs s"
  shows "\<exists>msg detail c.
     onFinish env now content finishReason u s =
     (None,
      (writeCommentary env now phase_recovery msg st_warning detail
         ((record_usage env u s)\<lparr>forceFinalizeAttempted := True\<rparr>))\<lparr>awaitingBackoff := Some c\<rparr>)"
proof -
  have b: "0 < pendingRecoveryBackoffMs ((record_usage env u s)\<lparr>forceFinalizeAttempted := True\<rparr>)"
    using assms(2) by (simp add: record_usage_fields)
  show ?thesis
    unfolding onFinish_def Let_def
    by (simp only: onFinish_conditions assms b if_False if_True) blast
qed

lemma force_finalize_issues_finalize_segment:
  assumes "force_finalize_due finishReason s"
  shows "fst (run_events env [Finished now content finishReason u, BackoffElapsed now2] s) = None \<and>
     finalizeSegment (snd (run_events env [Finished now content finishReason u, BackoffElapsed now2] s)) \<noteq> None"
proof (cases "0 < pendingRecoveryBackoffMs s")
  case True
  from onFinish_pauses [OF assms True, of env now content u]
  obtain msg detail c where
    r: "onFinish env now content finishReason u s =
        (None,
         (writeCommentary env now phase_recovery msg st_warning detail
            ((record_usage env u s)\<lparr>forceFinalizeAttempted := True\<rparr>))\<lparr>awaitingBackoff := Some c\<rparr>)"
    by blast
  show ?thesis
    by (simp add: r backoff_elapsed_def begin_finalize_fields)
next
  case False
  then have z: "pendingRecoveryBackoffMs s = 0" by simp
  show ?thesis
    by (simp add: onFinish_finalize [OF assms z] backoff_elapsed_def begin_finalize_fields
        split: option.splits)
qed

lemma force_finalize_completes:
  assumes "force_finalize_due finishReason s"
  shows "completionEmitted
     (snd (run_events env
        [Finished now content finishReason u, BackoffElapsed now2,
         FinalizeFinished now3 finalContent u2] s))"
proof -
  let ?s = "snd (run_events env [Finished now content finishReason u, BackoffElapsed now2] s)"
  from force_finalize_issues_finalize_segment [OF assms, of env now content u now2]
  have f: "fst (run_events env [Finished now content finishReason u, BackoffElapsed now2] s) = None"
    "finalizeSegment ?s \<noteq> None"
    by simp_all
  have c: "completes_run env (FinalizeFinished now3 finalContent u2) ?s"
    using f(2) by (simp add: completes_run_def)
  have "run_events env
        [Finished now content finishReason u, BackoffElapsed now2,
         FinalizeFinished now3 finalContent u2] s =
      handle env (FinalizeFinished now3 finalContent u2) ?s"
    using f(1) by (cases "onFinish env now content finishReason u s") (auto split: option.splits)
  with completes_run_emits [OF c] show ?thesis by simp
qed

lemma onTimeout_fields:
  "completionEmitted (onTimeout env now signal s) = completionEmitted s"
  by (simp add: onTimeout_def Let_def prim_obs)

lemma timed_out_run:
  "run_events demo_env [StartExecution 1001, StreamTimeout 181001 timeout_signal, StreamErrored]
     (initial_run demo_messages 0) =
   (None,
    stopCommentaryHeartbeat
      (onTimeout demo_env 181001 timeout_signal
         (start_execution demo_env 1001 (initial_run demo_messages 0))))"
  by simp

text \<open>
  Claim C1 as worded does not hold for every Run. A Run whose first segment is aborted by
  the stream timeout, and whose data stream then reports the error, ends without a
  completion batch: \<^verbatim>\<open>emitRunCompletionEvents\<close> is called only by the completion
  branch of \<^verbatim>\<open>onFinish\<close> and by the \<^verbatim>\<open>onFinish\<close> of the finalize segment.
\<close>

theorem timed_out_run_emits_no_completion_batch:
  "fst (run_events demo_env [StartExecution 1001, StreamTimeout 181001 timeout_signal, StreamErrored]
      (initial_run demo_messages 0)) = None \<and>
   activeStreamAbortController (snd (run_events demo_env
      [StartExecution 1001, StreamTimeout 181001 timeout_signal, StreamErrored]
      (initial_run demo_messages 0))) = Some True \<and>
   \<not> completionEmitted (snd (run_events demo_env
      [StartExecution 1001, StreamTimeout 181001 timeout_signal, StreamErrored]
      (initial_run demo_messages 0))) \<and>
   completion_events (snd (run_events demo_env
      [StartExecution 1001, StreamTimeout 181001 timeout_signal, StreamErrored]
      (initial_run demo_messages 0))) = []"
proof -
  let ?s = "stopCommentaryHeartbeat
      (onTimeout demo_env 181001 timeout_signal
         (start_execution demo_env 1001 (initial_run demo_messages 0)))"
  have a: "activeStreamAbortController
      (start_execution demo_env 1001 (initial_run demo_messages 0)) = Some False"
    by (simp add: start_execution_def Let_def streamText_def createStreamAbortSignal_def)
  have b: "activeStreamAbortController ?s = Some True"
    using a
    by (simp add: stopCommentaryHeartbeat_def onTimeout_def Let_def writeCommentary_def
        writeData_def merge_signal_def)
  have c: "\<not> completionEmitted ?s"
    by (simp add: prim_obs onTimeout_fields start_execution_def Let_def initial_run_def)
  have "completion_inv ?s"
    using reachable_invariants(2) [of demo_env
        "[StartExecution 1001, StreamTimeout 181001 timeout_signal, StreamErrored]" demo_messages 0]
    unfolding timed_out_run by simp
  with c have d: "completion_events ?s = []" by (simp add: completion_inv_def)
  from b c d show ?thesis unfolding timed_out_run by simp
qed

text \<open>
  Claim C1, amended. In every Run, whatever the sequence of commentary, heartbeat, timeout,
  step, finish, pause, finalize and error events, the completion event batch (the usage
  event and its annotation, the run metrics, the project memory and the final progress
  event of the response) is in the output at most once: not at all before
  \<^verbatim>\<open>emitRunCompletionEvents\<close> is called, and exactly once from its first call on; every
  later call returns the state unchanged, and no later event adds an event of the batch.
  A Run that completes has the batch exactly once: after an \<^verbatim>\<open>onFinish\<close> that takes its
  completion branch, and after the \<^verbatim>\<open>onFinish\<close> of the finalize segment, the batch is
  in the output; and when a force-finalize turn is due, the batch is in the output once
  the finalize segment that \<^verbatim>\<open>onFinish\<close> issues, after its recovery pause if there is
  one, has finished.
\<close>

theorem completion_batch_emitted_once:
  "(let s = snd (run_events env evs (initial_run messages switches))
    in (completionEmitted s \<longrightarrow> is_completion_batch (completion_events s)) \<and>
       (\<not> completionEmitted s \<longrightarrow> completion_events s = []) \<and>
       (\<forall>e. completes_run env e s \<longrightarrow>
          completionEmitted (snd (handle env e s)) \<and>
          is_completion_batch (completion_events (snd (handle env e s)))) \<and>
       (\<forall>now content finishReason u now2 now3 finalContent u2.
          force_finalize_due finishReason s \<longrightarrow>
            completionEmitted
              (snd (run_events env
                 [Finished now content finishReason u, BackoffElapsed now2,
                  FinalizeFinished now3 finalContent u2] s)) \<and>
            is_completion_batch
              (completion_events
                 (snd (run_events env
                    [Finished now content finishReason u, BackoffElapsed now2,
                     FinalizeFinished now3 finalContent u2] s)))) \<and>
       (\<forall>now t m p.
          completionEmitted (emitRunCompletionEvents env now t m p s) \<and>
          is_completion_batch (completion_events (emitRunCompletionEvents env now t m p s))) \<and>
       (completionEmitted s \<longrightarrow> (\<forall>now t m p. emitRunCompletionEvents env now t m p s = s)) \<and>
       (completionEmitted s \<longrightarrow>
          (\<forall>evs'. completionEmitted (snd (run_events env evs' s)) \<and>
                  completion_events (snd (run_events env evs' s)) = completion_events s)))"
proof -
  define s where "s = snd (run_events env evs (initial_run messages switches))"
  have inv: "completion_inv s"
    unfolding s_def by (rule reachable_invariants)
  have later: "completion_inv (snd (run_events env evs' s))" for evs'
    using run_events_keeps [of s env evs'] inv by (simp add: keeps_invariants_def)
  have 1: "completionEmitted s \<longrightarrow> is_completion_batch (completion_events s)"
    using inv by (simp add: completion_inv_def)
  have 2: "\<not> completionEmitted s \<longrightarrow> completion_events s = []"
    using inv by (simp add: completion_inv_def)
  have 3: "completes_run env e s \<longrightarrow>
      completionEmitted (snd (handle env e s)) \<and>
      is_completion_batch (completion_events (snd (handle env e s)))" for e
  proof
    assume c: "completes_run env e s"
    have "completion_inv (snd (handle env e s))"
      using handle_keeps [of s env e] inv by (simp add: keeps_invariants_def)
    with completes_run_emits [OF c]
    show "completionEmitted (snd (handle env e s)) \<and>
        is_completion_batch (completion_events (snd (handle env e s)))"
      by (simp add: completion_inv_def)
  qed
  have 4: "force_finalize_due finishReason s \<longrightarrow>
      completionEmitted
        (snd (run_events env
           [Finished now content finishReason u, BackoffElapsed now2,
            FinalizeFinished now3 finalContent u2] s)) \<and>
      is_completion_batch
        (completion_events
           (snd (run_events env
              [Finished now content finishReason u, BackoffElapsed now2,
               FinalizeFinished now3 finalContent u2] s)))"
    for now content finishReason u now2 now3 finalContent u2
  proof
    assume f: "force_finalize_due finishReason s"
    from force_finalize_completes [OF f, of env now content u now2 now3 finalContent u2]
      later [of "[Finished now content finishReason u, BackoffElapsed now2,
                  FinalizeFinished now3 finalContent u2]"]
    show "completionEmitted
        (snd (run_events env
           [Finished now content finishReason u, BackoffElapsed now2,
            FinalizeFinished now3 finalContent u2] s)) \<and>
      is_completion_batch
        (completion_events
           (snd (run_events env
              [Finished now content finishReason u, BackoffElapsed now2,
               FinalizeFinished now3 finalContent u2] s)))"
      by (simp add: completion_inv_def)
  qed
  have 5: "completionEmitted (emitRunCompletionEvents env now t m p s) \<and>
      is_completion_batch (completion_events (emitRunCompletionEvents env now t m p s))"
    for now t m p
  proof -
    have "keeps_invariants s (emitRunCompletionEvents env now t m p s)"
      by (intro keeps_emitRunCompletionEvents keeps_invariants_refl)
    with inv have "completion_inv (emitRunCompletionEvents env now t m p s)"
      by (simp add: keeps_invariants_def)
    then show ?thesis by (simp add: completion_inv_def prim_obs)
  qed
  have 6: "completionEmitted s \<longrightarrow> (\<forall>now t m p. emitRunCompletionEvents env now t m p s = s)"
    by (simp add: emitRunCompletionEvents_noop)
  have 7: "completionEmitted s \<longrightarrow>
      (\<forall>evs'. completionEmitted (snd (run_events env evs' s)) \<and>
              completion_events (snd (run_events env evs' s)) = completion_events s)"
    using run_events_keeps [of s env] by (simp add: keeps_invariants_def)
  from 1 2 3 4 5 6 7 show ?thesis unfolding Let_def s_def [symmetric] by blast
qed

theorem completion_batch_emitted_once_witness:
  "completes_run demo_env (Finished 1002 ''done'' fr_stop None)
     (snd (run_events demo_env [StartExecution 1001] (initial_run demo_messages 0))) \<and>
   completionEmitted (snd (handle demo_env (Finished 1002 ''done'' fr_stop None)
     (snd (run_events demo_env [StartExecution 1001] (initial_run demo_messages 0))))) \<and>
   is_completion_batch (completion_events (snd (handle demo_env (Finished 1002 ''done'' fr_stop None)
     (snd (run_events demo_env [StartExecution 1001] (initial_run demo_messages 0)))))) \<and>
   force_finalize_due fr_length
     (snd (run_events demo_env [StartExecution 1001, StepFinished 1500 stalled_step]
        (initial_run demo_messages 0))) \<and>
   is_completion_batch (completion_events (snd (run_events demo_env
     [Finished 1600 ''partial answer'' fr_length None, BackoffElapsed 2600,
      FinalizeFinished 2700 ''final answer'' None]
     (snd (run_events demo_env [StartExecution 1001, StepFinished 1500 stalled_step]
        (initial_run demo_messages 0)))))) \<and>
   completionEmitted (snd (run_events demo_env
      [StartExecution 1001, Finished 1002 ''done'' fr_stop None] (initial_run demo_messages 0))) \<and>
   emitRunCompletionEvents demo_env 1003 ''done'' ''gpt-5-codex'' ''OpenAI''
     (snd (run_events demo_env
        [StartExecution 1001, Finished 1002 ''done'' fr_stop None] (initial_run demo_messages 0))) =
   snd (run_events demo_env
      [StartExecution 1001, Finished 1002 ''done'' fr_stop None] (initial_run demo_messages 0))"
proof -
  have c: "completes_run demo_env (Finished 1002 ''done'' fr_stop None)
     (snd (run_events demo_env [StartExecution 1001] (initial_run demo_messages 0)))"
    by code_simp
  have f: "force_finalize_due fr_length
     (snd (run_events demo_env [StartExecution 1001, StepFinished 1500 stalled_step]
        (initial_run demo_messages 0)))"
    by code_simp
  have e: "completionEmitted (snd (run_events demo_env
      [StartExecution 1001, Finished 1002 ''done'' fr_stop None] (initial_run demo_messages 0)))"
    by code_simp
  from completion_batch_emitted_once [of demo_env "[StartExecution 1001]" demo_messages 0] c
  have 1: "completionEmitted (snd (handle demo_env (Finished 1002 ''done'' fr_stop None)
       (snd (run_events demo_env [StartExecution 1001] (initial_run demo_messages 0))))) \<and>
     is_completion_batch (completion_events (snd (handle demo_env (Finished 1002 ''done'' fr_stop None)
       (snd (run_events demo_env [StartExecution 1001] (initial_run demo_messages 0))))))"
    unfolding Let_def by blast
  from completion_batch_emitted_once
    [of demo_env "[StartExecution 1001, StepFinished 1500 stalled_step]" demo_messages 0] f
  have 2: "is_completion_batch (completion_events (snd (run_events demo_env
     [Finished 1600 ''partial answer'' fr_length None, BackoffElapsed 2600,
      FinalizeFinished 2700 ''final answer'' None]
     (snd (run_events demo_env [StartExecution 1001, StepFinished 1500 stalled_step]
        (initial_run demo_messages 0))))))"
    unfolding Let_def by blast
  from completion_batch_emitted_once [of demo_env
      "[StartExecution 1001, Finished 1002 ''done'' fr_stop None]" demo_messages 0] e
  have 3: "emitRunCompletionEvents demo_env 1003 ''done'' ''gpt-5-codex'' ''OpenAI''
     (snd (run_events demo_env
        [StartExecution 1001, Finished 1002 ''done'' fr_stop None] (initial_run demo_messages 0))) =
   snd (run_events demo_env
      [StartExecution 1001, Finished 1002 ''done'' fr_stop None] (initial_run demo_messages 0))"
    unfolding Let_def by blast
  from c f e 1 2 3 show ?thesis by blast
qed


























text \<open>
  Claim C4, which the code does not meet. \<^verbatim>\<open>onFinish\<close> compares
  \<^verbatim>\<open>stream.switches\<close> with \<^verbatim>\<open>MAX_RESPONSE_SEGMENTS\<close>, but no callback of the Run
  changes \<^verbatim>\<open>stream.switches\<close>: below the maximum at the start, it stays below, and no
  sequence of events raises the segment-limit error. With a maximum of 2 and three
  segments finishing with \<^verbatim>\<open>length\<close>, the Run issues a third continuation segment
  instead of raising the error.
\<close>

theorem segment_limit_not_enforced:
  "MAX_RESPONSE_SEGMENTS demo_env = 2 \<and>
   fst (run_events demo_env
      [StartExecution 1001, Finished 1002 ''a'' fr_length None, Finished 1003 ''b'' fr_length None,
       Finished 1004 ''c'' fr_length None] (initial_run demo_messages 0)) = None \<and>
   map seg_kind (issued (snd (run_events demo_env
      [StartExecution 1001, Finished 1002 ''a'' fr_length None, Finished 1003 ''b'' fr_length None,
       Finished 1004 ''c'' fr_length None] (initial_run demo_messages 0)))) =
     [seg_initial, seg_length_continue, seg_length_continue, seg_length_continue] \<and>
   stream_switches (snd (run_events demo_env
      [StartExecution 1001, Finished 1002 ''a'' fr_length None, Finished 1003 ''b'' fr_length None,
       Finished 1004 ''c'' fr_length None] (initial_run demo_messages 0))) = 0"
  by code_simp

lemma segment_limit_never_reached:
  assumes "stream_switches s < MAX_RESPONSE_SEGMENTS env"
  shows "fst (run_events env evs s) = None \<and>
         stream_switches (snd (run_events env evs s)) = stream_switches s"
  using run_events_not_thrown [OF assms, of evs] run_events_keeps [of s env evs]
  by (simp add: keeps_invariants_def)

text \<open>
  Claim C8 as stated fails: after a step in which the recovery controller asked to force
  the final answer, a segment that finishes with \<^verbatim>\<open>length\<close> is followed, after the
  recovery pause, by the finalize segment, and the user message appended is the finalize
  directive, not \<^verbatim>\<open>CONTINUE_PROMPT\<close>.
\<close>

theorem length_finish_without_continue_prompt:
  "map seg_kind (issued (snd (run_events demo_env
      [StartExecution 1001, StepFinished 1500 stalled_step,
       Finished 1600 ''partial answer'' fr_length None, BackoffElapsed 2600]
      (initial_run demo_messages 0)))) =
     [seg_initial, seg_finalize] \<and>
   map msg_role (processedMessages (snd (run_events demo_env
      [StartExecution 1001, StepFinished 1500 stalled_step,
       Finished 1600 ''partial answer'' fr_length None, BackoffElapsed 2600]
      (initial_run demo_messages 0)))) =
     [role_user, role_assistant, role_user] \<and>
   msg_content (last (processedMessages (snd (run_events demo_env
      [StartExecution 1001, StepFinished 1500 stalled_step,
       Finished 1600 ''partial answer'' fr_length None, BackoffElapsed 2600]
      (initial_run demo_messages 0))))) \<noteq>
     continue_directive demo_env ''gpt-5-codex'' ''OpenAI''"
  by code_simp

text \<open>
  Claim C8, amended. Whenever \<^verbatim>\<open>onFinish\<close> handles a finish with reason
  \<^verbatim>\<open>length\<close> in its length-continuation branch (no force-finalize turn is due, the
  analyzer asks neither for a run continuation nor for the forced recovery, and the
  segment limit is not reached), it appends exactly two messages to the conversation, an
  assistant message with the text of the finished segment and then a user message with
  the model and provider envelope followed by \<^verbatim>\<open>CONTINUE_PROMPT\<close>, and calls
  \<^verbatim>\<open>streamText\<close> once more with the extended conversation.
\<close>

theorem length_continuation_appends_two_messages:
  "\<not> force_finalize_due fr_length s \<and> \<not> continuation_due env content s \<and>
   \<not> forced_recovery_due env content s \<and> stream_switches s < MAX_RESPONSE_SEGMENTS env \<longrightarrow>
   fst (onFinish env now content fr_length u s) = None \<and>
   processedMessages (snd (onFinish env now content fr_length u s)) =
     processedMessages s @
       [\<lparr>msg_id = generateId env (generatedIds s), msg_role = role_assistant,
         msg_content = content\<rparr>,
        \<lparr>msg_id = generateId env (Suc (generatedIds s)), msg_role = role_user,
         msg_content =
           ''[Model: '' @ prop_model (last_user_properties env s) @ '']'' @ NL @ NL @
           ''[Provider: '' @ prop_provider (last_user_properties env s) @ '']'' @ NL @ NL @
           CONTINUE_PROMPT env\<rparr>] \<and>
   issued (snd (onFinish env now content fr_length u s)) =
     issued s @
       [\<lparr>seg_kind = seg_length_continue,
         seg_messages = processedMessages (snd (onFinish env now content fr_length u s))\<rparr>]"
proof
  assume a: "\<not> force_finalize_due fr_length s \<and> \<not> continuation_due env content s \<and>
    \<not> forced_recovery_due env content s \<and> stream_switches s < MAX_RESPONSE_SEGMENTS env"
  then have r: "onFinish env now content fr_length u s =
     (None,
      streamText seg_length_continue
        (push_message env role_user
           (continue_directive env (prop_model (last_user_properties env s))
              (prop_provider (last_user_properties env s)))
           (push_message env role_assistant content (record_usage env u s))))"
    by (intro onFinish_length_continue) simp_all
  show "fst (onFinish env now content fr_length u s) = None \<and>
   processedMessages (snd (onFinish env now content fr_length u s)) =
     processedMessages s @
       [\<lparr>msg_id = generateId env (generatedIds s), msg_role = role_assistant,
         msg_content = content\<rparr>,
        \<lparr>msg_id = generateId env (Suc (generatedIds s)), msg_role = role_user,
         msg_content =
           ''[Model: '' @ prop_model (last_user_properties env s) @ '']'' @ NL @ NL @
           ''[Provider: '' @ prop_provider (last_user_properties env s) @ '']'' @ NL @ NL @
           CONTINUE_PROMPT env\<rparr>] \<and>
   issued (snd (onFinish env now content fr_length u s)) =
     issued s @
       [\<lparr>seg_kind = seg_length_continue,
         seg_messages = processedMessages (snd (onFinish env now content fr_length u s))\<rparr>]"
    unfolding r
    by (simp add: streamText_def createStreamAbortSignal_def push_message_def
        record_usage_fields continue_directive_def envelope_def)
qed

theorem length_continuation_appends_two_messages_witness:
  "\<not> force_finalize_due fr_length (initial_run demo_messages 0) \<and>
   \<not> continuation_due demo_env ''partial answer'' (initial_run demo_messages 0) \<and>
   \<not> forced_recovery_due demo_env ''partial answer'' (initial_run demo_messages 0) \<and>
   stream_switches (initial_run demo_messages 0) < MAX_RESPONSE_SEGMENTS demo_env \<and>
   map msg_role (processedMessages (snd (onFinish demo_env 1002 ''partial answer'' fr_length None
      (initial_run demo_messages 0)))) = [role_user, role_assistant, role_user] \<and>
   map seg_kind (issued (snd (onFinish demo_env 1002 ''partial answer'' fr_length None
      (initial_run demo_messages 0)))) = [seg_length_continue]"
proof -
  have h: "\<not> force_finalize_due fr_length (initial_run demo_messages 0) \<and>
   \<not> continuation_due demo_env ''partial answer'' (initial_run demo_messages 0) \<and>
   \<not> forced_recovery_due demo_env ''partial answer'' (initial_run demo_messages 0) \<and>
   stream_switches (initial_run demo_messages 0) < MAX_RESPONSE_SEGMENTS demo_env"
    by (simp add: force_finalize_due_def continuation_due_def forced_recovery_due_def
        run_continuation_decision_def initial_run_def demo_env_def)
  have m: "map msg_role (processedMessages (initial_run demo_messages 0)) = [role_user]"
    "issued (initial_run demo_messages 0) = []"
    by (simp_all add: initial_run_def demo_messages_def)
  from length_continuation_appends_two_messages
    [of "initial_run demo_messages 0" demo_env "''partial answer''" 1002 None] h
  have "processedMessages (snd (onFinish demo_env 1002 ''partial answer'' fr_length None
      (initial_run demo_messages 0))) =
     processedMessages (initial_run demo_messages 0) @
       [\<lparr>msg_id = generateId demo_env (generatedIds (initial_run demo_messages 0)),
         msg_role = role_assistant, msg_content = ''partial answer''\<rparr>,
        \<lparr>msg_id = generateId demo_env (Suc (generatedIds (initial_run demo_messages 0))),
         msg_role = role_user,
         msg_content =
           ''[Model: '' @ prop_model (last_user_properties demo_env (initial_run demo_messages 0)) @
           '']'' @ NL @ NL @
           ''[Provider: '' @
           prop_provider (last_user_properties demo_env (initial_run demo_messages 0)) @ '']'' @
           NL @ NL @ CONTINUE_PROMPT demo_env\<rparr>]"
    and "issued (snd (onFinish demo_env 1002 ''partial answer'' fr_length None
      (initial_run demo_messages 0))) =
     issued (initial_run demo_messages 0) @
       [\<lparr>seg_kind = seg_length_continue,
         seg_messages = processedMessages (snd (onFinish demo_env 1002 ''partial answer''
           fr_length None (initial_run demo_messages 0)))\<rparr>]"
    by blast+
  then have "map msg_role (processedMessages (snd (onFinish demo_env 1002 ''partial answer''
      fr_length None (initial_run demo_messages 0)))) = [role_user, role_assistant, role_user]"
    and "map seg_kind (issued (snd (onFinish demo_env 1002 ''partial answer'' fr_length None
      (initial_run demo_messages 0)))) = [seg_length_continue]"
    using m by simp_all
  with h show ?thesis by blast
qed

end
